theory Spec2Isabelle
  imports Complex_Main "HOL-Library.Word" "HOL-Library.Multiset"
begin

unbundle bit_operations_syntax

section \<open>Scalars and constants (Const.hpp)\<close>

text \<open>
  Coefficients, sizes and indices are \<open>u64\<close> in the source. They are natural numbers here,
  and every operation that can leave the 64-bit range carries its wrap-around.
\<close>

definition u64_add :: "nat \<Rightarrow> nat \<Rightarrow> nat" where
  "u64_add a b = (a + b) mod 2 ^ 64"

definition u64_sub :: "nat \<Rightarrow> nat \<Rightarrow> nat" where
  "u64_sub a b = (a + (2 ^ 64 - b mod 2 ^ 64)) mod 2 ^ 64"

definition u64_mul :: "nat \<Rightarrow> nat \<Rightarrow> nat" where
  "u64_mul a b = (a * b) mod 2 ^ 64"

definition LOG_DEGREE :: nat where "LOG_DEGREE = 12"
definition DEGREE :: nat where "DEGREE = 4096"
definition MOD_Q :: nat where "MOD_Q = 18014398491918337"
definition MOD_P :: nat where "MOD_P = 36028797005856769"
definition INVERSE_P_MOD_Q :: nat where "INVERSE_P_MOD_Q = 995681451208133"
definition P_MOD_Q :: nat where "P_MOD_Q = MOD_P mod MOD_Q"
definition Q_BARR :: nat where "Q_BARR = 2 ^ 64 div MOD_Q"
definition P_BARR :: nat where "P_BARR = 2 ^ 64 div MOD_P"
definition PIR_PER_COEFF_BITS :: nat where "PIR_PER_COEFF_BITS = 2"
definition PIR_PAYLOAD_SIZE :: nat where "PIR_PAYLOAD_SIZE = DEGREE div 2 ^ PIR_PER_COEFF_BITS"
definition PIR_LOG_RANK :: nat where "PIR_LOG_RANK = 10"
definition PIR_RANK :: nat where "PIR_RANK = 2 ^ PIR_LOG_RANK"

section \<open>Exceptions (Exception.hpp)\<close>

text \<open>
  Every \<open>throw\<close> of the source is an \<open>Inl\<close> result. \<open>RuntimeError\<close> carries the message
  of a plain \<open>std::runtime_error\<close>; \<open>CollectionNotFound\<close> is the runtime error of
  \<open>getCollectionOrThrow\<close>, whose message ends in the collection hash; \<open>OutOfRange\<close> stands for
  an access outside a \<open>std::vector\<close> and \<open>DivideByZero\<close> for an integer division by
  zero, neither of which the source checks. \<open>LengthError\<close> and \<open>BadAlloc\<close> are the
  \<open>std::length_error\<close> and the \<open>std::bad_alloc\<close> that \<open>std::vector::reserve\<close> throws.
\<close>

datatype exn =
    InvalidNTTStateException
  | InvalidModulusException
  | InvalidExtendedStateException
  | InvalidRankException
  | SameDataReferenceException
  | RuntimeError string
  | CollectionNotFound nat
  | OutOfRange
  | DivideByZero
  | LengthError
  | BadAlloc

section \<open>Polynomial (Polynomial.hpp)\<close>

record Polynomial =
  poly_is_ntt :: bool
  poly_mod :: nat
  poly_data :: "nat list"

definition new_Polynomial :: "nat \<Rightarrow> nat \<Rightarrow> Polynomial" where
  "new_Polynomial degree m = \<lparr>poly_is_ntt = False, poly_mod = m, poly_data = replicate degree 0\<rparr>"

definition getDegree :: "Polynomial \<Rightarrow> nat" where
  "getDegree p = length (poly_data p)"

text \<open>The coefficient invariant of the data model: every coefficient is below the modulus.\<close>

definition coeffs_reduced :: "Polynomial \<Rightarrow> bool" where
  "coeffs_reduced p = list_all (\<lambda>c. c < poly_mod p) (poly_data p)"

section \<open>HEval: arithmetic on polynomials (HEval.cpp)\<close>

subsection \<open>The Intel HEXL kernels HEval calls\<close>

text \<open>
  HEXL is a library outside the repository. \<open>MultiplyUInt64Hi\<close> and \<open>BarrettReduce64\<close> are
  written as its header number-theory.hpp has them (output factor 1); the element-wise
  kernels are taken by their contract on reduced operands: the first \<open>n\<close> entries of the
  result are the sum, difference or product modulo \<open>modulus\<close>.
\<close>

definition MultiplyUInt64Hi :: "nat \<Rightarrow> nat \<Rightarrow> nat" where
  "MultiplyUInt64Hi x y = (x * y) div 2 ^ 64"

definition BarrettReduce64 :: "nat \<Rightarrow> nat \<Rightarrow> nat \<Rightarrow> nat" where
  "BarrettReduce64 input modulus q_barr =
     (let q = MultiplyUInt64Hi input q_barr;
          q_times_input = u64_sub input (u64_mul q modulus)
      in if q_times_input \<ge> modulus then q_times_input - modulus else q_times_input)"

definition eltwise :: "(nat \<Rightarrow> nat \<Rightarrow> nat) \<Rightarrow> nat list \<Rightarrow> nat list \<Rightarrow> nat list \<Rightarrow> nat \<Rightarrow> nat list" where
  "eltwise f res op1 op2 n = map (\<lambda>i. f (op1 ! i) (op2 ! i)) [0..<n] @ drop n res"

definition EltwiseAddMod :: "nat list \<Rightarrow> nat list \<Rightarrow> nat list \<Rightarrow> nat \<Rightarrow> nat \<Rightarrow> nat list" where
  "EltwiseAddMod res op1 op2 n modulus = eltwise (\<lambda>a b. (a + b) mod modulus) res op1 op2 n"

definition EltwiseMultMod :: "nat list \<Rightarrow> nat list \<Rightarrow> nat list \<Rightarrow> nat \<Rightarrow> nat \<Rightarrow> nat list" where
  "EltwiseMultMod res op1 op2 n modulus = eltwise (\<lambda>a b. (a * b) mod modulus) res op1 op2 n"

subsection \<open>The Barrett table of the constructor\<close>

text \<open>
  \<open>barr_\<close> is a \<open>std::map\<close> filled with the two entries \<open>barr_[MOD_Q] = Q_BARR\<close> and
  \<open>barr_[MOD_P] = P_BARR\<close> (the later assignment wins); \<open>operator[]\<close> on any other key
  yields a fresh 0.
\<close>

definition barr :: "nat \<Rightarrow> nat" where
  "barr m = (if m = MOD_P then P_BARR else if m = MOD_Q then Q_BARR else 0)"

subsection \<open>normMod\<close>

text \<open>
  The body of the loop of \<open>HEval::normMod\<close> on one coefficient \<open>temp = op[i]\<close>, with
  \<open>src = op.getMod()\<close> and \<open>dst = res.getMod()\<close>.
\<close>

definition normMod_diff :: "nat \<Rightarrow> nat \<Rightarrow> nat" where
  "normMod_diff src dst =
     (let halfMod = src div 2;
          isSmallPrime = (halfMod \<le> dst)
      in u64_sub dst (if isSmallPrime then src else BarrettReduce64 src dst (barr dst)))"

definition normMod_coeff :: "nat \<Rightarrow> nat \<Rightarrow> nat \<Rightarrow> nat" where
  "normMod_coeff src dst c =
     (let halfMod = src div 2;
          isSmallPrime = (halfMod \<le> dst);
          diff = normMod_diff src dst;
          temp = (if c > halfMod then u64_add c diff else c);
          temp = (if \<not> isSmallPrime then BarrettReduce64 temp dst (barr dst) else temp)
      in temp)"

text \<open>
  The loop writes \<open>res[i]\<close> for every \<open>i < op.getDegree()\<close>; a result buffer shorter than the
  operand would be written outside its bounds, which the model reports as \<open>OutOfRange\<close>.
\<close>

definition normMod :: "Polynomial \<Rightarrow> Polynomial \<Rightarrow> exn + Polynomial" where
  "normMod res op =
     (if getDegree res < getDegree op then Inl OutOfRange
      else Inr (res\<lparr>poly_data :=
                      map (normMod_coeff (poly_mod op) (poly_mod res)) (poly_data op)
                        @ drop (getDegree op) (poly_data res),
                    poly_is_ntt := False\<rparr>))"

text \<open>The signed representative of a residue, re-centred around \<open>src / 2\<close>.\<close>

definition center_lift :: "nat \<Rightarrow> nat \<Rightarrow> int" where
  "center_lift src c = (if 2 * c \<le> src then int c else int c - int src)"


subsection \<open>add and mult on polynomials\<close>

definition add_poly :: "Polynomial \<Rightarrow> Polynomial \<Rightarrow> Polynomial \<Rightarrow> exn + Polynomial" where
  "add_poly res op1 op2 =
     (if poly_is_ntt op1 \<noteq> poly_is_ntt op2 then Inl InvalidNTTStateException
      else if poly_mod res \<noteq> poly_mod op1 \<or> poly_mod op1 \<noteq> poly_mod op2
        then Inl InvalidModulusException
      else if getDegree res < getDegree op1 \<or> getDegree op2 < getDegree op1 then Inl OutOfRange
      else Inr (res\<lparr>poly_data := EltwiseAddMod (poly_data res) (poly_data op1) (poly_data op2)
                                    (getDegree op1) (poly_mod op1),
                    poly_is_ntt := poly_is_ntt op1\<rparr>))"

definition mult_poly :: "Polynomial \<Rightarrow> Polynomial \<Rightarrow> Polynomial \<Rightarrow> exn + Polynomial" where
  "mult_poly res op1 op2 =
     (if \<not> poly_is_ntt op1 \<or> \<not> poly_is_ntt op2 then Inl InvalidNTTStateException
      else if poly_mod res \<noteq> poly_mod op1 \<or> poly_mod op1 \<noteq> poly_mod op2
        then Inl InvalidModulusException
      else if getDegree res < getDegree op1 \<or> getDegree op2 < getDegree op1 then Inl OutOfRange
      else Inr (res\<lparr>poly_data := EltwiseMultMod (poly_data res) (poly_data op1) (poly_data op2)
                                     (getDegree op1) (poly_mod op1),
                    poly_is_ntt := True\<rparr>))"

subsection \<open>aut\<close>

text \<open>
  \<open>aut same res op exponent rank\<close>: \<open>same\<close> is the outcome of the pointer comparison
  \<open>op.getData() == res.getData()\<close>; with distinct buffers the loop reads \<open>op\<close> and writes
  \<open>res\<close>. \<open>aut_index\<close> is the index computation of one iteration: the masked product and
  the sign.
\<close>

definition aut_index :: "nat \<Rightarrow> nat \<Rightarrow> nat \<Rightarrow> nat \<times> bool" where
  "aut_index i exponent rank =
     (let idx = (u64_mul i exponent) AND (u64_sub (u64_mul 2 rank) 1)
      in if idx \<ge> rank then (idx - rank, False) else (idx, True))"

definition negate_coeff :: "nat \<Rightarrow> nat \<Rightarrow> nat" where
  "negate_coeff m c = (if c \<noteq> 0 then u64_sub m c else 0)"

definition aut_row :: "nat \<Rightarrow> nat list \<Rightarrow> nat \<Rightarrow> nat \<Rightarrow> nat \<Rightarrow> nat \<Rightarrow> nat list \<Rightarrow> nat list" where
  "aut_row m op exponent rank stack i res =
     (let (idx, sign) = aut_index i exponent rank
      in fold (\<lambda>j r. r[idx * stack + j :=
                         (if sign then op ! (i * stack + j)
                          else negate_coeff m (op ! (i * stack + j)))])
              [0..<stack] res)"

definition aut :: "bool \<Rightarrow> Polynomial \<Rightarrow> Polynomial \<Rightarrow> nat \<Rightarrow> nat \<Rightarrow> exn + Polynomial" where
  "aut same res op exponent rank =
     (if poly_is_ntt op then Inl InvalidNTTStateException
      else if same then Inl SameDataReferenceException
      else if rank = 0 then Inl DivideByZero
      else let stack = getDegree op div rank
           in if getDegree res < rank * stack then Inl OutOfRange
              else Inr (res\<lparr>poly_data := fold (aut_row (poly_mod op) (poly_data op) exponent rank stack)
                                                [0..<rank] (poly_data res),
                            poly_is_ntt := False\<rparr>))"

section \<open>Ciphertext (Ciphertext.hpp) and its product (HEval.cpp)\<close>

record Ciphertext =
  polys :: "Polynomial list"

definition new_Ciphertext :: "bool \<Rightarrow> Ciphertext" where
  "new_Ciphertext is_extended =
     \<lparr>polys = replicate (if is_extended then 3 else 2) (new_Polynomial DEGREE MOD_Q)\<rparr>"

definition getIsExtended :: "Ciphertext \<Rightarrow> bool" where
  "getIsExtended ct = (length (polys ct) = 3)"

definition getIsNTT :: "Ciphertext \<Rightarrow> bool" where
  "getIsNTT ct = poly_is_ntt (polys ct ! 0)"

definition getA :: "Ciphertext \<Rightarrow> Polynomial" where "getA ct = polys ct ! 0"
definition getB :: "Ciphertext \<Rightarrow> Polynomial" where "getB ct = polys ct ! 1"
definition getC :: "Ciphertext \<Rightarrow> Polynomial" where "getC ct = polys ct ! 2"

text \<open>
  \<open>HEval::mult(Ciphertext &res, const Ciphertext &op1, const Ciphertext &op2)\<close>. The result
  is a separate object from the operands; the statements run in the order of the source,
  each on the result of the one before, and the first exception ends the call.
\<close>

definition mult_ct :: "Ciphertext \<Rightarrow> Ciphertext \<Rightarrow> Ciphertext \<Rightarrow> exn + Ciphertext" where
  "mult_ct res op1 op2 =
     (if \<not> getIsNTT op1 \<or> \<not> getIsNTT op2 then Inl InvalidNTTStateException
      else if \<not> getIsExtended res then Inl InvalidExtendedStateException
      else case mult_poly (getA res) (getA op1) (getA op2) of Inl e \<Rightarrow> Inl e | Inr a \<Rightarrow>
           case mult_poly (getC res) (getB op1) (getB op2) of Inl e \<Rightarrow> Inl e | Inr c \<Rightarrow>
           case mult_poly (new_Polynomial (getDegree (getA op1)) MOD_Q) (getA op1) (getB op2) of
             Inl e \<Rightarrow> Inl e | Inr temp \<Rightarrow>
           case mult_poly (getB res) (getB op1) (getA op2) of Inl e \<Rightarrow> Inl e | Inr b \<Rightarrow>
           case add_poly b temp b of Inl e \<Rightarrow> Inl e | Inr b' \<Rightarrow>
             Inr (res\<lparr>polys := [a, b', c]\<rparr>))"

section \<open>Client (Client.cpp)\<close>

subsection \<open>encode\<close>

text \<open>
  A \<open>Message\<close> is a vector of \<open>double\<close>; its entries are real numbers here. The conversion
  of a non-negative \<open>double\<close> to \<open>u64\<close> drops the fraction.
\<close>

type_synonym Message = "real list"

definition double_to_u64 :: "real \<Rightarrow> nat" where
  "double_to_u64 x = nat \<lfloor>x\<rfloor>"

definition encode_step :: "Message \<Rightarrow> real \<Rightarrow> nat \<Rightarrow> nat \<Rightarrow> nat list \<Rightarrow> nat list" where
  "encode_step msg scale stack i res =
     (let sign = (msg ! i > 0);
          value = double_to_u64 (\<bar>msg ! i\<bar> * scale)
      in res[(i + 1) * stack - 1 := (if sign then value else u64_sub MOD_Q value)])"

definition encode :: "Polynomial \<Rightarrow> Message \<Rightarrow> real \<Rightarrow> exn + Polynomial" where
  "encode res msg scale =
     (if length msg = 0 then Inl DivideByZero
      else let stack = getDegree res div length msg
           in if stack = 0 then Inl OutOfRange
              else Inr (res\<lparr>poly_data := fold (encode_step msg scale stack) [0..<length msg]
                                                (poly_data res)\<rparr>))"


subsection \<open>topKScore\<close>

text \<open>
  \<open>std::priority_queue\<close> keeps its elements in a \<open>std::vector\<close> ordered as a binary heap
  by \<open>std::push_heap\<close> and \<open>std::pop_heap\<close>. The C++ standard leaves open which of several
  elements that compare equal is at the top; the functions below follow the GNU
  implementation (bits/stl_heap.h), which the build uses. A \<open>Pair\<close> is
  \<open>std::pair<double, int>\<close>, and \<open>Compare\<close> looks at the first component only.
\<close>

type_synonym Pair = "real \<times> int"

definition Compare :: "Pair \<Rightarrow> Pair \<Rightarrow> bool" where
  "Compare a b = (fst a > fst b)"

text \<open>\<open>std::__push_heap\<close>: the hole moves up while the parent compares before the value.\<close>

function push_heap_impl :: "Pair list \<Rightarrow> nat \<Rightarrow> nat \<Rightarrow> Pair \<Rightarrow> Pair list" where
  "push_heap_impl first holeIndex topIndex v =
     (let parent = (holeIndex - 1) div 2
      in if holeIndex > topIndex \<and> Compare (first ! parent) v
         then push_heap_impl (first[holeIndex := first ! parent]) parent topIndex v
         else first[holeIndex := v])"
  by pat_completeness auto
termination
  by (relation "measure (\<lambda>(first, holeIndex, topIndex, v). holeIndex)") auto

declare push_heap_impl.simps [simp del]

text \<open>
  The loop of \<open>std::__adjust_heap\<close>: \<open>holeIndex\<close> and \<open>secondChild\<close> are equal at the head of
  every iteration, so one index stands for both.
\<close>

function adjust_heap_down :: "Pair list \<Rightarrow> nat \<Rightarrow> nat \<Rightarrow> Pair list \<times> nat" where
  "adjust_heap_down first holeIndex len =
     (if holeIndex < (len - 1) div 2
      then let secondChild = 2 * (holeIndex + 1);
               secondChild = (if Compare (first ! secondChild) (first ! (secondChild - 1))
                              then secondChild - 1 else secondChild)
           in adjust_heap_down (first[holeIndex := first ! secondChild]) secondChild len
      else (first, holeIndex))"
  by pat_completeness auto
termination
  by (relation "measure (\<lambda>(first, holeIndex, len). len - holeIndex)") auto

declare adjust_heap_down.simps [simp del]

text \<open>
  \<open>std::__adjust_heap\<close>. The distances of the source are signed, so \<open>(len - 2) / 2\<close> is
  \<open>-1\<close> for \<open>len = 0\<close>; the guard \<open>2 \<le> len\<close> keeps the natural-number quotient from
  matching there.
\<close>

definition adjust_heap :: "Pair list \<Rightarrow> nat \<Rightarrow> nat \<Rightarrow> Pair \<Rightarrow> Pair list" where
  "adjust_heap first holeIndex len v =
     (let topIndex = holeIndex;
          (first, holeIndex) = adjust_heap_down first holeIndex len;
          (first, holeIndex) =
             (if even len \<and> 2 \<le> len \<and> holeIndex = (len - 2) div 2
              then let secondChild = 2 * (holeIndex + 1)
                   in (first[holeIndex := first ! (secondChild - 1)], secondChild - 1)
              else (first, holeIndex))
      in push_heap_impl first holeIndex topIndex v)"

definition push_heap :: "Pair list \<Rightarrow> Pair list" where
  "push_heap first = push_heap_impl first (length first - 1) 0 (first ! (length first - 1))"

definition pop_heap :: "Pair list \<Rightarrow> Pair list" where
  "pop_heap first =
     (if length first > 1
      then let last = length first - 1; v = first ! last
           in adjust_heap (first[last := first ! 0]) 0 last v
      else first)"

definition pq_push :: "Pair list \<Rightarrow> Pair \<Rightarrow> Pair list" where
  "pq_push c x = push_heap (c @ [x])"

definition pq_pop :: "Pair list \<Rightarrow> Pair list" where
  "pq_pop c = butlast (pop_heap c)"

definition pq_top :: "Pair list \<Rightarrow> Pair" where
  "pq_top c = c ! 0"

text \<open>A loop whose body can throw: the first exception ends it.\<close>

fun foldE :: "('a \<Rightarrow> 's \<Rightarrow> exn + 's) \<Rightarrow> 'a list \<Rightarrow> 's \<Rightarrow> exn + 's" where
  "foldE f [] s = Inr s"
| "foldE f (x # xs) s = (case f x s of Inl e \<Rightarrow> Inl e | Inr s' \<Rightarrow> foldE f xs s')"

text \<open>The conversion of the \<open>u64\<close> flat index to the \<open>int\<close> of the pair (32 bits, two's complement).\<close>

definition u64_to_int :: "nat \<Rightarrow> int" where
  "u64_to_int x = (let v = x mod 2 ^ 32 in if v < 2 ^ 31 then int v else int v - 2 ^ 32)"

text \<open>
  One iteration of the inner loop of \<open>Client::topKScore\<close> for the entry \<open>v = msg[i][j]\<close> at
  flat index \<open>idx\<close>, with \<open>k = res.size()\<close>. \<open>top()\<close> and \<open>pop()\<close> on an empty queue are
  undefined in C++ and reported as \<open>OutOfRange\<close>.
\<close>

definition topK_visit :: "nat \<Rightarrow> real \<Rightarrow> int \<Rightarrow> Pair list \<Rightarrow> exn + Pair list" where
  "topK_visit k v idx min_heap =
     (if length min_heap < k then Inr (pq_push min_heap (v, idx))
      else if min_heap = [] then Inl OutOfRange
      else if fst (pq_top min_heap) < v then Inr (pq_push (pq_pop min_heap) (v, idx))
      else Inr min_heap)"

definition topK_scan :: "nat \<Rightarrow> Message list \<Rightarrow> exn + Pair list" where
  "topK_scan k msg =
     foldE (\<lambda>i. foldE (\<lambda>j min_heap.
                          if j < length (msg ! i)
                          then topK_visit k (msg ! i ! j) (u64_to_int (u64_add (u64_mul i DEGREE) j)) min_heap
                          else Inl OutOfRange)
                       [0..<DEGREE])
           [0..<length msg] []"

definition topK_emit :: "nat \<Rightarrow> nat \<Rightarrow> int list \<times> Pair list \<Rightarrow> exn + int list \<times> Pair list" where
  "topK_emit k i s =
     (case s of (res, min_heap) \<Rightarrow>
        if min_heap = [] then Inl OutOfRange
        else Inr (res[k - i - 1 := snd (pq_top min_heap)], pq_pop min_heap))"

definition topKScore :: "int list \<Rightarrow> Message list \<Rightarrow> exn + int list" where
  "topKScore res msg =
     (let k = length res
      in case topK_scan k msg of Inl e \<Rightarrow> Inl e
         | Inr min_heap \<Rightarrow>
             (case foldE (topK_emit k) [0..<k] (res, min_heap) of Inl e \<Rightarrow> Inl e
              | Inr (res', h) \<Rightarrow> Inr res'))"


section \<open>The HTTP server (EVDServer.cpp)\<close>

subsection \<open>Bytes and the reader of a request body\<close>

type_synonym byte = "8 word"

record BinaryReader =
  buffer :: "byte list"
  pos :: nat

definition new_BinaryReader :: "byte list \<Rightarrow> BinaryReader" where
  "new_BinaryReader buf = \<lparr>buffer = buf, pos = 0\<rparr>"

definition readBytes :: "nat \<Rightarrow> BinaryReader \<Rightarrow> (byte list \<times> BinaryReader) option" where
  "readBytes len r =
     (if pos r + len > length (buffer r) then None
      else Some (take len (drop (pos r) (buffer r)), r\<lparr>pos := pos r + len\<rparr>))"

text \<open>\<open>memcpy\<close> of eight bytes into a \<open>u64\<close>, and \<open>appendBinary\<close> of a \<open>u64\<close>: little endian.\<close>

definition le_u64 :: "byte list \<Rightarrow> nat" where
  "le_u64 bs = foldr (\<lambda>b acc. unat b + 256 * acc) bs 0"

definition u64_bytes :: "nat \<Rightarrow> byte list" where
  "u64_bytes x = map (\<lambda>i. of_nat (x div 256 ^ i)) [0..<8]"

definition u64s_of_bytes :: "byte list \<Rightarrow> nat list" where
  "u64s_of_bytes bs = map (\<lambda>i. le_u64 (take 8 (drop (8 * i) bs))) [0..<length bs div 8]"

definition read_u64 :: "BinaryReader \<Rightarrow> (nat \<times> BinaryReader) option" where
  "read_u64 r = (case readBytes 8 r of None \<Rightarrow> None | Some (bs, r') \<Rightarrow> Some (le_u64 bs, r'))"

definition read_u8 :: "BinaryReader \<Rightarrow> (byte \<times> BinaryReader) option" where
  "read_u8 r = (case readBytes 1 r of None \<Rightarrow> None | Some (bs, r') \<Rightarrow> Some (bs ! 0, r'))"

text \<open>
  \<open>readBytes\<close> into the data of a polynomial of \<open>n\<close> coefficients modulo \<open>m\<close>
  (\<open>n * sizeof(u64)\<close> bytes), followed by \<open>setIsNTT(ntt)\<close> where the source has it.
\<close>

definition read_poly :: "bool \<Rightarrow> nat \<Rightarrow> nat \<Rightarrow> BinaryReader \<Rightarrow> (Polynomial \<times> BinaryReader) option" where
  "read_poly ntt m n r =
     (case readBytes (n * 8) r of None \<Rightarrow> None
      | Some (bs, r') \<Rightarrow> Some (\<lparr>poly_is_ntt = ntt, poly_mod = m, poly_data = u64s_of_bytes bs\<rparr>, r'))"

text \<open>A loop of \<open>n\<close> reads that stops at the first one that fails.\<close>

primrec read_many :: "(BinaryReader \<Rightarrow> ('a \<times> BinaryReader) option) \<Rightarrow> nat \<Rightarrow> BinaryReader
                        \<Rightarrow> ('a list \<times> BinaryReader) option" where
  "read_many rd 0 r = Some ([], r)"
| "read_many rd (Suc n) r =
     (case rd r of None \<Rightarrow> None
      | Some (x, r') \<Rightarrow> (case read_many rd n r' of None \<Rightarrow> None
                         | Some (xs, r'') \<Rightarrow> Some (x # xs, r'')))"

definition appendPoly :: "byte list \<Rightarrow> Polynomial \<Rightarrow> exn + byte list" where
  "appendPoly out p =
     (if getDegree p < DEGREE then Inl OutOfRange
      else Inr (out @ concat (map u64_bytes (take DEGREE (poly_data p)))))"

text \<open>The two \<open>appendBinary\<close> calls that put \<open>A\<close> and then \<open>B\<close> of a ciphertext on the wire.\<close>

definition appendCiphertext :: "byte list \<Rightarrow> Ciphertext \<Rightarrow> exn + byte list" where
  "appendCiphertext out ct =
     (if length (polys ct) < 2 then Inl OutOfRange
      else case appendPoly out (getA ct) of Inl e \<Rightarrow> Inl e
           | Inr out' \<Rightarrow> appendPoly out' (getB ct))"

subsection \<open>Responses\<close>

datatype http_status = ok | bad_request | not_found | internal_server_error

datatype Response =
    BinaryResponse "byte list"
  | TextResponse http_status string

text \<open>\<open>makeBinaryResponse\<close> answers with status 200; \<open>makeTextResponse\<close> carries its status.\<close>

definition response_status :: "Response \<Rightarrow> http_status" where
  "response_status resp = (case resp of BinaryResponse b \<Rightarrow> ok | TextResponse st m \<Rightarrow> st)"

subsection \<open>Keys, caches and the collection record\<close>

record SwitchingKey =
  polyAModQ :: Polynomial
  polyAModP :: Polynomial
  polyBModQ :: Polynomial
  polyBModP :: Polynomial

record MLWECiphertext =
  mlwe_rank :: nat
  mlwe_polys :: "Polynomial list"

definition new_MLWECiphertext :: "nat \<Rightarrow> MLWECiphertext" where
  "new_MLWECiphertext rk =
     \<lparr>mlwe_rank = rk, mlwe_polys = replicate (DEGREE div rk + 1) (new_Polynomial rk MOD_Q)\<rparr>"

type_synonym MLWESwitchingKey = "Polynomial list"
type_synonym CachedKeys = "Ciphertext list"
type_synonym CachedQuery = "Ciphertext list"
type_synonym CachedPlaintextQuery = "Polynomial list"

definition new_CachedKeys :: "nat \<Rightarrow> CachedKeys" where
  "new_CachedKeys rk = replicate rk (new_Ciphertext False)"

record CollectionData =
  relinKey :: SwitchingKey
  autedModPackKeys :: "SwitchingKey list list"
  autedModPackMLWEKeys :: "MLWESwitchingKey list list"
  pirInvAutKeys :: "SwitchingKey list"
  pir_encoded_payloads :: "Polynomial list"
  full_block_caches :: "CachedKeys list"
  partial_block_keys :: "MLWECiphertext list"
  partial_block_cache :: "CachedKeys option"
  payloads :: "byte list list"
  log_rank :: nat
  rank :: nat
  stack :: nat
  dimension :: nat
  metric_type :: byte
  db_size :: nat

record EVDServer =
  collections :: "nat \<rightharpoonup> CollectionData"

text \<open>
  The similarity and PIR pipelines (Server.cpp, PIRServer.cpp, \<open>Client::encodePIRPayload\<close>)
  run on HEXL's transforms. The request handlers only pass their results on, so the
  handlers take the pipelines as parameters: each gets the keys of the collection, which the
  \<open>Server\<close> object of the source holds by reference, and may throw. \<open>cacheKeys\<close> writes into
  a cache that stays in the collection, so it returns what it wrote together with the
  exception, if any.

  \<open>handleRetrieve\<close> reserves storage whose size is a number read from the request.
  Whether the allocator grants a request of \<open>n\<close> bytes is not decided by the code, so it is
  a parameter as well: \<open>allocate n\<close>. Every other allocation is taken to succeed.
\<close>

record engine =
  cacheKeys :: "CollectionData \<Rightarrow> CachedKeys \<Rightarrow> MLWECiphertext list \<Rightarrow> CachedKeys \<times> exn option"
  cacheQuery :: "CollectionData \<Rightarrow> MLWECiphertext \<Rightarrow> exn + CachedQuery"
  cacheQueryPtxt :: "CollectionData \<Rightarrow> Polynomial \<Rightarrow> exn + CachedPlaintextQuery"
  innerProduct :: "CollectionData \<Rightarrow> CachedQuery \<Rightarrow> CachedKeys \<Rightarrow> exn + Ciphertext"
  innerProductPtxt :: "CollectionData \<Rightarrow> CachedPlaintextQuery \<Rightarrow> CachedKeys \<Rightarrow> exn + Ciphertext"
  encodePIRPayload :: "byte list \<Rightarrow> Polynomial"
  pir :: "SwitchingKey \<Rightarrow> SwitchingKey list \<Rightarrow> Ciphertext \<Rightarrow> Ciphertext \<Rightarrow> Polynomial list
            \<Rightarrow> exn + Ciphertext"
  allocate :: "nat \<Rightarrow> bool"

text \<open>
  \<open>std::ceil(std::log2(dimension))\<close> for \<open>1 \<le> dimension \<le> DEGREE\<close>, where the floating-point
  logarithm is exact on powers of two: the least \<open>k\<close> with \<open>dimension \<le> 2 ^ k\<close>.
\<close>

fun ceil_log2 :: "nat \<Rightarrow> nat" where
  "ceil_log2 n = (if n \<le> 1 then 0 else Suc (ceil_log2 ((n + 1) div 2)))"

declare ceil_log2.simps [simp del]

definition new_CollectionData :: "nat \<Rightarrow> byte \<Rightarrow> SwitchingKey \<Rightarrow> SwitchingKey list list
     \<Rightarrow> MLWESwitchingKey list list \<Rightarrow> SwitchingKey list \<Rightarrow> CollectionData" where
  "new_CollectionData d mt rk apk apmk piak =
     \<lparr>relinKey = rk, autedModPackKeys = apk, autedModPackMLWEKeys = apmk, pirInvAutKeys = piak,
      pir_encoded_payloads = replicate (PIR_RANK * PIR_RANK) ((new_Polynomial DEGREE MOD_Q)\<lparr>poly_is_ntt := True\<rparr>),
      full_block_caches = [], partial_block_keys = [], partial_block_cache = None, payloads = [],
      log_rank = ceil_log2 d, rank = 2 ^ ceil_log2 d, stack = DEGREE div 2 ^ ceil_log2 d,
      dimension = d, metric_type = mt, db_size = 0\<rparr>"

text \<open>
  A handler returns its response or the exception it throws, and the server state it
  leaves. A loop body goes on with its state, returns a response early, or throws.
\<close>

type_synonym handled = "(exn + Response) \<times> EVDServer"

datatype 'a flow = Next 'a | Return Response | Throw exn

definition put_collection :: "nat \<Rightarrow> CollectionData \<Rightarrow> EVDServer \<Rightarrow> EVDServer" where
  "put_collection h ctx s = s\<lparr>collections := (collections s)(h \<mapsto> ctx)\<rparr>"

subsection \<open>handleSetup\<close>

definition setup_body :: "byte \<Rightarrow> nat \<Rightarrow> byte \<Rightarrow> nat \<Rightarrow> byte list" where
  "setup_body st d mt n = [st] @ u64_bytes d @ [mt] @ u64_bytes n"

definition read_SwitchingKey :: "BinaryReader \<Rightarrow> (SwitchingKey \<times> BinaryReader) option" where
  "read_SwitchingKey r =
     (case read_poly True MOD_Q DEGREE r of None \<Rightarrow> None | Some (aq, r1) \<Rightarrow>
      case read_poly True MOD_P DEGREE r1 of None \<Rightarrow> None | Some (ap, r2) \<Rightarrow>
      case read_poly True MOD_Q DEGREE r2 of None \<Rightarrow> None | Some (bq, r3) \<Rightarrow>
      case read_poly True MOD_P DEGREE r3 of None \<Rightarrow> None | Some (bp, r4) \<Rightarrow>
        Some (\<lparr>polyAModQ = aq, polyAModP = ap, polyBModQ = bq, polyBModP = bp\<rparr>, r4))"

text \<open>The four polynomials of one index \<open>k\<close> of an \<open>MLWESwitchingKey\<close>, in the order of \<open>polys_\<close>.\<close>

definition read_MLWE_quad :: "nat \<Rightarrow> BinaryReader \<Rightarrow> (Polynomial list \<times> BinaryReader) option" where
  "read_MLWE_quad rk r =
     (case read_poly True MOD_Q rk r of None \<Rightarrow> None | Some (aq, r1) \<Rightarrow>
      case read_poly True MOD_P rk r1 of None \<Rightarrow> None | Some (ap, r2) \<Rightarrow>
      case read_poly True MOD_Q rk r2 of None \<Rightarrow> None | Some (bq, r3) \<Rightarrow>
      case read_poly True MOD_P rk r3 of None \<Rightarrow> None | Some (bp, r4) \<Rightarrow>
        Some ([aq, ap, bq, bp], r4))"

definition read_MLWESwitchingKey :: "nat \<Rightarrow> nat \<Rightarrow> BinaryReader \<Rightarrow> (MLWESwitchingKey \<times> BinaryReader) option" where
  "read_MLWESwitchingKey rk stk r =
     (case read_many (read_MLWE_quad rk) stk r of None \<Rightarrow> None
      | Some (quads, r') \<Rightarrow> Some (concat quads, r'))"

definition handleSetup :: "byte list \<Rightarrow> EVDServer \<Rightarrow> handled" where
  "handleSetup body s =
     (let malformed = (Inr (TextResponse bad_request ''Malformed setup request''), s) in
      case read_u64 (new_BinaryReader body) of None \<Rightarrow> malformed | Some (collectionHash, r1) \<Rightarrow>
      case read_u64 r1 of None \<Rightarrow> malformed | Some (dm, r2) \<Rightarrow>
      case read_u8 r2 of None \<Rightarrow> malformed | Some (mt, r3) \<Rightarrow>
      case read_u8 r3 of None \<Rightarrow> malformed | Some (has_keys, r4) \<Rightarrow>
      (case collections s collectionHash of
         Some existing_ctx \<Rightarrow>
           if dimension existing_ctx \<noteq> dm
           then (Inr (BinaryResponse (setup_body 2 (dimension existing_ctx)
                        (metric_type existing_ctx) (db_size existing_ctx))), s)
           else (Inr (BinaryResponse (setup_body 0 (dimension existing_ctx)
                        (metric_type existing_ctx) (db_size existing_ctx))), s)
       | None \<Rightarrow>
           if has_keys = 0 then (Inr (BinaryResponse (setup_body 1 dm mt 0)), s)
           else if dm = 0 \<or> dm > DEGREE
             then (Inr (TextResponse bad_request ''Invalid dimension value''), s)
           else
             let lr = ceil_log2 dm; rk = 2 ^ lr; stk = DEGREE div rk in
             case read_SwitchingKey r4 of
               None \<Rightarrow> (Inr (TextResponse bad_request ''Malformed relin key payload''), s)
             | Some (rlk, r5) \<Rightarrow>
             case read_many (read_many read_SwitchingKey stk) rk r5 of
               None \<Rightarrow> (Inr (TextResponse bad_request ''Malformed autedModPack key payload''), s)
             | Some (apk, r6) \<Rightarrow>
             case read_many (read_many (read_MLWESwitchingKey rk stk) stk) rk r6 of
               None \<Rightarrow> (Inr (TextResponse bad_request ''Malformed autedModPackMLWE key payload''), s)
             | Some (apmk, r7) \<Rightarrow>
             case read_many read_SwitchingKey PIR_RANK r7 of
               None \<Rightarrow> (Inr (TextResponse bad_request ''Malformed PIR key payload''), s)
             | Some (piak, r8) \<Rightarrow>
               (Inr (BinaryResponse (setup_body 0 dm mt 0)),
                put_collection collectionHash (new_CollectionData dm mt rlk apk apmk piak) s)))"

subsection \<open>handleInsert\<close>

text \<open>
  One iteration of the loop over \<open>i < num_to_insert\<close>, in two parts. \<open>store_item\<close> is the
  second part, after the three reads: the payload, its PIR encoding at \<open>db_size + i\<close> and the
  key are stored, and a block of \<open>DEGREE\<close> keys is cached as a full block. It yields the
  exception that ends the request, if any, and the collection as it stands then.
\<close>

definition store_item :: "engine \<Rightarrow> nat \<Rightarrow> MLWECiphertext \<Rightarrow> byte list \<Rightarrow> CollectionData
                            \<Rightarrow> exn option \<times> CollectionData" where
  "store_item c i new_key payload ctx =
     (let ctx = ctx\<lparr>payloads := payloads ctx @ [payload]\<rparr>;
          slot = u64_add (db_size ctx) i
      in if slot \<ge> length (pir_encoded_payloads ctx) then (Some OutOfRange, ctx)
         else
           let ctx = ctx\<lparr>pir_encoded_payloads :=
                            (pir_encoded_payloads ctx)[slot := encodePIRPayload c payload]\<rparr>;
               ctx = ctx\<lparr>partial_block_keys := partial_block_keys ctx @ [new_key]\<rparr>
           in if length (partial_block_keys ctx) = DEGREE
              then
                (case cacheKeys c ctx (new_CachedKeys (rank ctx)) (partial_block_keys ctx) of
                   (cache, Some e) \<Rightarrow>
                     (Some e, ctx\<lparr>full_block_caches := full_block_caches ctx @ [cache]\<rparr>)
                 | (cache, None) \<Rightarrow>
                     (None, ctx\<lparr>full_block_caches := full_block_caches ctx @ [cache],
                                 partial_block_keys := [],
                                 partial_block_cache := None\<rparr>))
              else (None, ctx))"

text \<open>
  The first part: the reads of the \<open>stack\<close> polynomials \<open>A\<close>, of \<open>B\<close> and of the payload, each
  of which returns the 400 response when the body is too short.
\<close>

definition insert_item :: "engine \<Rightarrow> nat \<Rightarrow> BinaryReader \<Rightarrow> CollectionData
                             \<Rightarrow> BinaryReader flow \<times> CollectionData" where
  "insert_item c i r ctx =
     (case read_many (read_poly False MOD_Q (rank ctx)) (stack ctx) r of
        None \<Rightarrow> (Return (TextResponse bad_request ''Malformed key payload (A)''), ctx)
      | Some (a_polys, r1) \<Rightarrow>
      case read_poly False MOD_Q (rank ctx) r1 of
        None \<Rightarrow> (Return (TextResponse bad_request ''Malformed key payload (B)''), ctx)
      | Some (b, r2) \<Rightarrow>
      case readBytes PIR_PAYLOAD_SIZE r2 of
        None \<Rightarrow> (Return (TextResponse bad_request ''Malformed payload data''), ctx)
      | Some (payload, r3) \<Rightarrow>
          (case store_item c i \<lparr>mlwe_rank = rank ctx, mlwe_polys = a_polys @ [b]\<rparr> payload ctx of
             (None, ctx') \<Rightarrow> (Next r3, ctx')
           | (Some e, ctx') \<Rightarrow> (Throw e, ctx')))"

text \<open>\<open>insert_loop c n i r ctx\<close>: the \<open>n\<close> iterations that remain, the next one with index \<open>i\<close>.\<close>

primrec insert_loop :: "engine \<Rightarrow> nat \<Rightarrow> nat \<Rightarrow> BinaryReader \<Rightarrow> CollectionData
                          \<Rightarrow> BinaryReader flow \<times> CollectionData" where
  "insert_loop c 0 i r ctx = (Next r, ctx)"
| "insert_loop c (Suc n) i r ctx =
     (case insert_item c i r ctx of
        (Next r', ctx') \<Rightarrow> insert_loop c n (Suc i) r' ctx'
      | (Return resp, ctx') \<Rightarrow> (Return resp, ctx')
      | (Throw e, ctx') \<Rightarrow> (Throw e, ctx'))"

text \<open>The block after the loop: the keys left over are padded to \<open>DEGREE\<close> and cached.\<close>

definition cache_partial_block :: "engine \<Rightarrow> CollectionData \<Rightarrow> exn option \<times> CollectionData" where
  "cache_partial_block c ctx =
     (if partial_block_keys ctx \<noteq> []
      then let padded_block = partial_block_keys ctx
                 @ replicate (DEGREE - length (partial_block_keys ctx)) (new_MLWECiphertext (rank ctx))
           in case cacheKeys c ctx (new_CachedKeys (rank ctx)) padded_block of
                (cache, ex) \<Rightarrow> (ex, ctx\<lparr>partial_block_cache := Some cache\<rparr>)
      else (None, ctx))"

definition handleInsert :: "engine \<Rightarrow> byte list \<Rightarrow> EVDServer \<Rightarrow> handled" where
  "handleInsert c body s =
     (let malformed = (Inr (TextResponse bad_request ''Malformed insert request''), s) in
      case read_u64 (new_BinaryReader body) of None \<Rightarrow> malformed | Some (collectionHash, r1) \<Rightarrow>
      case read_u64 r1 of None \<Rightarrow> malformed | Some (num_to_insert, r2) \<Rightarrow>
      (case collections s collectionHash of
         None \<Rightarrow> (Inl (CollectionNotFound collectionHash), s)
       | Some ctx \<Rightarrow>
           (case insert_loop c num_to_insert 0 r2 ctx of
              (Return resp, ctx') \<Rightarrow> (Inr resp, put_collection collectionHash ctx' s)
            | (Throw e, ctx') \<Rightarrow> (Inl e, put_collection collectionHash ctx' s)
            | (Next r3, ctx') \<Rightarrow>
                (case cache_partial_block c ctx' of
                   (Some e, ctx'') \<Rightarrow> (Inl e, put_collection collectionHash ctx'' s)
                 | (None, ctx'') \<Rightarrow>
                     (Inr (BinaryResponse []),
                      put_collection collectionHash
                        (ctx''\<lparr>db_size := u64_add (db_size ctx'') num_to_insert\<rparr>) s)))))"

subsection \<open>handleQuery\<close>

text \<open>
  The loop over the full block caches and the block for the partial cache are the same in
  the encrypted and in the plaintext branch of the source but for the inner product they
  call; \<open>ip\<close> is that call with the cached query.
\<close>

fun inner_products :: "(CachedKeys \<Rightarrow> exn + Ciphertext) \<Rightarrow> CachedKeys list \<Rightarrow> byte list
                         \<Rightarrow> exn + byte list" where
  "inner_products ip [] out = Inr out"
| "inner_products ip (ck # cks) out =
     (case ip ck of Inl e \<Rightarrow> Inl e
      | Inr res \<Rightarrow> (case appendCiphertext out res of Inl e \<Rightarrow> Inl e
                     | Inr out' \<Rightarrow> inner_products ip cks out'))"

definition answer_query :: "(CachedKeys \<Rightarrow> exn + Ciphertext) \<Rightarrow> CollectionData \<Rightarrow> exn + Response" where
  "answer_query ip ctx =
     (case inner_products ip (full_block_caches ctx) [] of Inl e \<Rightarrow> Inl e
      | Inr out \<Rightarrow>
          (case partial_block_cache ctx of
             None \<Rightarrow> Inr (BinaryResponse out)
           | Some pc \<Rightarrow>
               (case ip pc of Inl e \<Rightarrow> Inl e
                | Inr partial_res \<Rightarrow>
                    (case appendCiphertext out partial_res of Inl e \<Rightarrow> Inl e
                     | Inr out' \<Rightarrow> Inr (BinaryResponse out')))))"

definition handleQuery :: "engine \<Rightarrow> byte list \<Rightarrow> bool \<Rightarrow> EVDServer \<Rightarrow> handled" where
  "handleQuery c body isEncrypted s =
     (case read_u64 (new_BinaryReader body) of
        None \<Rightarrow> (Inr (TextResponse bad_request ''Malformed query request''), s)
      | Some (collectionHash, r1) \<Rightarrow>
      (case collections s collectionHash of
         None \<Rightarrow> (Inl (CollectionNotFound collectionHash), s)
       | Some ctx \<Rightarrow>
           if db_size ctx = 0 then (Inr (TextResponse bad_request ''Collection is empty''), s)
           else if isEncrypted then
             (case read_many (read_poly False MOD_Q (rank ctx)) (stack ctx) r1 of
                None \<Rightarrow> (Inr (TextResponse bad_request ''Malformed query payload (A)''), s)
              | Some (a_polys, r2) \<Rightarrow>
              case read_poly False MOD_Q (rank ctx) r2 of
                None \<Rightarrow> (Inr (TextResponse bad_request ''Malformed query payload (B)''), s)
              | Some (b, r3) \<Rightarrow>
              case cacheQuery c ctx \<lparr>mlwe_rank = rank ctx, mlwe_polys = a_polys @ [b]\<rparr> of
                Inl e \<Rightarrow> (Inl e, s)
              | Inr queryCache \<Rightarrow> (answer_query (innerProduct c ctx queryCache) ctx, s))
           else
             (case read_poly True MOD_Q (rank ctx) r1 of
                None \<Rightarrow> (Inr (TextResponse bad_request ''Malformed plaintext query payload''), s)
              | Some (query, r2) \<Rightarrow>
              case cacheQueryPtxt c ctx query of
                Inl e \<Rightarrow> (Inl e, s)
              | Inr queryCache \<Rightarrow> (answer_query (innerProductPtxt c ctx queryCache) ctx, s))))"

subsection \<open>handleRetrieve\<close>

text \<open>
  \<open>body.reserve(n)\<close> on the empty response body, a \<open>std::vector<uint8_t>\<close>. The standard
  library throws \<open>std::length_error\<close> when \<open>n\<close> is above \<open>max_size()\<close>, which is
  \<open>PTRDIFF_MAX\<close> for elements of one byte; otherwise, the capacity of the empty vector
  being 0, it allocates \<open>n\<close> bytes when \<open>0 < n\<close>, and \<open>std::bad_alloc\<close> leaves the allocator
  when it does not grant them.
\<close>

definition vector_max_size :: nat where
  "vector_max_size = 2 ^ 63 - 1"

definition vector_reserve :: "engine \<Rightarrow> nat \<Rightarrow> exn option" where
  "vector_reserve c n =
     (if n > vector_max_size then Some LengthError
      else if 0 < n \<and> \<not> allocate c n then Some BadAlloc
      else None)"

text \<open>
  \<open>retrieve_loop n r ctx out\<close>: the \<open>n\<close> indices that remain. An index below \<open>db_size\<close>
  copies the payload stored there, any other index puts \<open>PIR_PAYLOAD_SIZE\<close> zero bytes.
\<close>

primrec retrieve_loop :: "nat \<Rightarrow> BinaryReader \<Rightarrow> CollectionData \<Rightarrow> byte list \<Rightarrow> byte list flow" where
  "retrieve_loop 0 r ctx out = Next out"
| "retrieve_loop (Suc n) r ctx out =
     (case read_u64 r of
        None \<Rightarrow> Return (TextResponse bad_request ''Malformed retrieve index'')
      | Some (index, r') \<Rightarrow>
          if index < db_size ctx
          then (if index < length (payloads ctx) \<and> PIR_PAYLOAD_SIZE \<le> length (payloads ctx ! index)
                then retrieve_loop n r' ctx (out @ take PIR_PAYLOAD_SIZE (payloads ctx ! index))
                else Throw OutOfRange)
          else retrieve_loop n r' ctx (out @ replicate PIR_PAYLOAD_SIZE 0))"

definition handleRetrieve :: "engine \<Rightarrow> byte list \<Rightarrow> EVDServer \<Rightarrow> handled" where
  "handleRetrieve c body s =
     (let malformed = (Inr (TextResponse bad_request ''Malformed retrieve request''), s) in
      case read_u64 (new_BinaryReader body) of None \<Rightarrow> malformed | Some (collectionHash, r1) \<Rightarrow>
      case read_u64 r1 of None \<Rightarrow> malformed | Some (num_indices, r2) \<Rightarrow>
      (case collections s collectionHash of
         None \<Rightarrow> (Inl (CollectionNotFound collectionHash), s)
       | Some ctx \<Rightarrow>
           (case vector_reserve c (u64_mul num_indices PIR_PAYLOAD_SIZE) of
              Some e \<Rightarrow> (Inl e, s)
            | None \<Rightarrow>
                (case retrieve_loop num_indices r2 ctx [] of
                   Next out \<Rightarrow> (Inr (BinaryResponse out), s)
                 | Return resp \<Rightarrow> (Inr resp, s)
                 | Throw e \<Rightarrow> (Inl e, s)))))"

subsection \<open>handlePirRetrieve\<close>

definition handlePirRetrieve :: "engine \<Rightarrow> byte list \<Rightarrow> EVDServer \<Rightarrow> handled" where
  "handlePirRetrieve c body s =
     (case read_u64 (new_BinaryReader body) of
        None \<Rightarrow> (Inr (TextResponse bad_request ''Malformed PIR retrieve request''), s)
      | Some (collectionHash, r1) \<Rightarrow>
      (case collections s collectionHash of
         None \<Rightarrow> (Inl (CollectionNotFound collectionHash), s)
       | Some ctx \<Rightarrow>
           if db_size ctx = 0 then (Inl (RuntimeError ''Database is empty''), s)
           else if db_size ctx > PIR_RANK * PIR_RANK
             then (Inl (RuntimeError ''Database size exceeds PIR capacity''), s)
           else
             let malformed = (Inr (TextResponse bad_request ''Malformed PIR query payload''), s) in
             case read_poly False MOD_Q DEGREE r1 of None \<Rightarrow> malformed | Some (a1, r2) \<Rightarrow>
             case read_poly False MOD_Q DEGREE r2 of None \<Rightarrow> malformed | Some (b1, r3) \<Rightarrow>
             case read_poly False MOD_Q DEGREE r3 of None \<Rightarrow> malformed | Some (a2, r4) \<Rightarrow>
             case read_poly False MOD_Q DEGREE r4 of None \<Rightarrow> malformed | Some (b2, r5) \<Rightarrow>
             (case pir c (relinKey ctx) (pirInvAutKeys ctx) \<lparr>polys = [a1, b1]\<rparr> \<lparr>polys = [a2, b2]\<rparr>
                     (pir_encoded_payloads ctx) of
                Inl e \<Rightarrow> (Inl e, s)
              | Inr result \<Rightarrow>
                  (case appendCiphertext [] result of Inl e \<Rightarrow> (Inl e, s)
                   | Inr out \<Rightarrow> (Inr (BinaryResponse out), s)))))"

subsection \<open>Routing and the answer to an exception\<close>

text \<open>
  The POST branch of \<open>processRequest\<close>, inside the \<open>try\<close> of \<open>Session::dispatchRequest\<close>: an
  exception that leaves a handler is answered with status 500 and the connection is closed.
\<close>

record ResponseResult =
  response :: Response
  should_close :: bool

definition processRequest :: "engine \<Rightarrow> string \<Rightarrow> byte list \<Rightarrow> EVDServer
                                \<Rightarrow> (exn + ResponseResult) \<times> EVDServer" where
  "processRequest c target body s =
     (let plain = (\<lambda>h. case h of (Inl e, s') \<Rightarrow> (Inl e, s')
                        | (Inr resp, s') \<Rightarrow> (Inr \<lparr>response = resp, should_close = False\<rparr>, s')) in
      if target = ''/collections/setup'' then plain (handleSetup body s)
      else if target = ''/collections/insert'' then plain (handleInsert c body s)
      else if target = ''/collections/query'' then plain (handleQuery c body True s)
      else if target = ''/collections/query_ptxt'' then plain (handleQuery c body False s)
      else if target = ''/collections/retrieve'' then plain (handleRetrieve c body s)
      else if target = ''/collections/pir_retrieve'' then plain (handlePirRetrieve c body s)
      else if target = ''/terminate''
        then (Inr \<lparr>response = TextResponse ok ''terminated'', should_close = True\<rparr>, s)
      else (Inr \<lparr>response = TextResponse not_found ''Unknown endpoint'', should_close = False\<rparr>, s))"

definition dispatchRequest :: "engine \<Rightarrow> string \<Rightarrow> byte list \<Rightarrow> EVDServer \<Rightarrow> ResponseResult \<times> EVDServer" where
  "dispatchRequest c target body s =
     (case processRequest c target body s of
        (Inl ex, s') \<Rightarrow>
          (\<lparr>response = TextResponse internal_server_error ''Internal server error'',
            should_close = True\<rparr>, s')
      | (Inr result, s') \<Rightarrow> (result, s'))"

section \<open>Notions used in the statements\<close>

text \<open>
  A rank-1 ciphertext in NTT form modulo \<open>Q\<close>, an extended result ciphertext, and the
  coefficient-wise combination of two polynomials of degree \<open>DEGREE\<close>.
\<close>

definition ntt_poly_mod_Q :: "Polynomial \<Rightarrow> bool" where
  "ntt_poly_mod_Q p = (poly_is_ntt p \<and> poly_mod p = MOD_Q \<and> getDegree p = DEGREE \<and> coeffs_reduced p)"

definition rank1_ntt_ct :: "Ciphertext \<Rightarrow> bool" where
  "rank1_ntt_ct ct = (length (polys ct) = 2 \<and> list_all ntt_poly_mod_Q (polys ct))"

definition extended_ct :: "Ciphertext \<Rightarrow> bool" where
  "extended_ct ct = (length (polys ct) = 3 \<and>
      list_all (\<lambda>p. poly_mod p = MOD_Q \<and> getDegree p = DEGREE) (polys ct))"

definition pointwise :: "(nat \<Rightarrow> nat \<Rightarrow> nat) \<Rightarrow> Polynomial \<Rightarrow> Polynomial \<Rightarrow> nat list" where
  "pointwise f p q = map (\<lambda>i. f (poly_data p ! i) (poly_data q ! i)) [0..<DEGREE]"

text \<open>
  The coefficient that \<open>aut\<close> stores for the source coefficient \<open>c\<close> at index \<open>i\<close>: \<open>c\<close>
  itself when \<open>i * e\<close> falls in the lower half modulo \<open>2 * rk\<close>, its negation otherwise.
\<close>

definition aut_coeff :: "nat \<Rightarrow> nat \<Rightarrow> nat \<Rightarrow> nat \<Rightarrow> nat \<Rightarrow> nat" where
  "aut_coeff m rk e i c = (if (i * e) mod (2 * rk) < rk then c else negate_coeff m c)"

section \<open>Notions used in the statements about blocks\<close>

text \<open>
  The bytes one inserted item takes in the body, the ciphertexts a query response holds for a
  collection, and what one iteration and \<open>n\<close> iterations of the insert loop leave behind
  when they go on to the next item.
\<close>

definition item_bytes :: "CollectionData \<Rightarrow> nat" where
  "item_bytes ctx = stack ctx * (rank ctx * 8) + rank ctx * 8 + PIR_PAYLOAD_SIZE"

definition item_stored :: "CollectionData \<Rightarrow> CollectionData \<Rightarrow> bool" where
  "item_stored ctx ctx' =
     (rank ctx' = rank ctx \<and> stack ctx' = stack ctx \<and> db_size ctx' = db_size ctx \<and>
      length (pir_encoded_payloads ctx') = length (pir_encoded_payloads ctx) \<and>
      length (payloads ctx') = Suc (length (payloads ctx)) \<and>
      (if Suc (length (partial_block_keys ctx)) = DEGREE
       then length (full_block_caches ctx') = Suc (length (full_block_caches ctx)) \<and>
            partial_block_keys ctx' = [] \<and> partial_block_cache ctx' = None
       else length (full_block_caches ctx') = length (full_block_caches ctx) \<and>
            length (partial_block_keys ctx') = Suc (length (partial_block_keys ctx)) \<and>
            partial_block_cache ctx' = partial_block_cache ctx))"

definition items_stored :: "nat \<Rightarrow> CollectionData \<Rightarrow> CollectionData \<Rightarrow> bool" where
  "items_stored n ctx ctx' =
     (rank ctx' = rank ctx \<and> stack ctx' = stack ctx \<and> db_size ctx' = db_size ctx \<and>
      length (pir_encoded_payloads ctx') = length (pir_encoded_payloads ctx) \<and>
      length (payloads ctx') = length (payloads ctx) + n \<and>
      length (full_block_caches ctx')
        = length (full_block_caches ctx) + (length (partial_block_keys ctx) + n) div DEGREE \<and>
      length (partial_block_keys ctx') = (length (partial_block_keys ctx) + n) mod DEGREE \<and>
      partial_block_cache ctx'
        = (if (length (partial_block_keys ctx) + n) div DEGREE = 0 then partial_block_cache ctx else None))"

definition ciphertexts_held :: "CollectionData \<Rightarrow> nat" where
  "ciphertexts_held ctx =
     length (full_block_caches ctx) + (if partial_block_cache ctx = None then 0 else 1)"

section \<open>Notions used for the top-k selection\<close>

text \<open>
  The first \<open>n\<close> entries of a vector form a binary min-heap on the scores: no entry is
  smaller than its parent.
\<close>

definition heap_upto :: "nat \<Rightarrow> Pair list \<Rightarrow> bool" where
  "heap_upto n xs = (n \<le> length xs \<and> (\<forall>i\<in>{1..<n}. fst (xs ! ((i - 1) div 2)) \<le> fst (xs ! i)))"

text \<open>
  The state of the sift-up loop of \<open>push_heap_impl\<close>: the heap order holds between all pairs
  that do not involve the hole, the value \<open>v\<close> to be placed is not above the children of the
  hole, and the parent of the hole is not above the children of the hole.
\<close>

definition up_inv :: "nat \<Rightarrow> Pair list \<Rightarrow> nat \<Rightarrow> Pair \<Rightarrow> bool" where
  "up_inv n xs hole v =
     (hole < n \<and> n \<le> length xs \<and>
      (\<forall>i\<in>{1..<n}. i \<noteq> hole \<longrightarrow> (i - 1) div 2 \<noteq> hole \<longrightarrow> fst (xs ! ((i - 1) div 2)) \<le> fst (xs ! i)) \<and>
      (\<forall>c\<in>{1..<n}. (c - 1) div 2 = hole \<longrightarrow> fst v \<le> fst (xs ! c)) \<and>
      (\<forall>c\<in>{1..<n}. (c - 1) div 2 = hole \<longrightarrow> 0 < hole \<longrightarrow> fst (xs ! ((hole - 1) div 2)) \<le> fst (xs ! c)))"

definition is_heap :: "Pair list \<Rightarrow> bool" where
  "is_heap c = heap_upto (length c) c"

text \<open>
  The state of the scan of \<open>topKScore\<close> after the entries \<open>es\<close>: the heap holds
  \<open>min k (length es)\<close> of them, and none of the others has a larger score than any of those
  in the heap.
\<close>

definition topk_inv :: "nat \<Rightarrow> Pair list \<Rightarrow> Pair list \<Rightarrow> bool" where
  "topk_inv k es h =
     (is_heap h \<and> length h = min k (length es) \<and>
      (\<exists>R. mset es = mset h + R \<and> (\<forall>a\<in>#R. \<forall>b\<in>#mset h. fst a \<le> fst b)))"

text \<open>
  The scored entries in the order of the scan, each with its flat index \<open>i * DEGREE + j\<close>;
  and the score found at a flat index.
\<close>

definition entries :: "Message list \<Rightarrow> Pair list" where
  "entries msg =
     concat (map (\<lambda>i. map (\<lambda>j. (msg ! i ! j, int (i * DEGREE + j))) [0..<DEGREE]) [0..<length msg])"

definition score_at :: "Message list \<Rightarrow> int \<Rightarrow> real" where
  "score_at msg x = msg ! (nat x div DEGREE) ! (nat x mod DEGREE)"

section \<open>The stored payloads and the states the server reaches\<close>

text \<open>
  What \<open>handleRetrieve\<close> relies on when it copies \<open>payloads_[index]\<close> for an index below
  \<open>db_size\<close>: the collection holds a payload for every such index, and every payload it holds
  has \<open>PIR_PAYLOAD_SIZE\<close> bytes.
\<close>

definition payloads_inv :: "CollectionData \<Rightarrow> bool" where
  "payloads_inv ctx =
     (db_size ctx \<le> length (payloads ctx) \<and>
      list_all (\<lambda>p. length p = PIR_PAYLOAD_SIZE) (payloads ctx))"

definition server_inv :: "EVDServer \<Rightarrow> bool" where
  "server_inv s = (\<forall>h ctx. collections s h = Some ctx \<longrightarrow> payloads_inv ctx)"

text \<open>
  The states of the server: it starts with no collection, a POST request is handled by
  \<open>dispatchRequest\<close>, and a DELETE request erases the collection named in its target.
\<close>

inductive reachable :: "engine \<Rightarrow> EVDServer \<Rightarrow> bool" for c :: engine where
  start: "reachable c \<lparr>collections = Map.empty\<rparr>"
| post: "reachable c s \<Longrightarrow> reachable c (snd (dispatchRequest c target body s))"
| delete: "reachable c s \<Longrightarrow> reachable c (s\<lparr>collections := (collections s)(h := None)\<rparr>)"

section \<open>A collection and an engine for the concrete instances\<close>

text \<open>
  \<open>example_collection d\<close> is the record that \<open>handleSetup\<close> creates for dimension \<open>d\<close>, with
  key material of the right shape whose content plays no role. \<open>example_engine\<close> is an
  engine whose pipelines never throw and return ciphertexts of the right shape, and whose
  allocator grants every request below \<open>2 ^ 30\<close> bytes.
\<close>

definition example_key :: SwitchingKey where
  "example_key = \<lparr>polyAModQ = (new_Polynomial DEGREE MOD_Q)\<lparr>poly_is_ntt := True\<rparr>,
                  polyAModP = (new_Polynomial DEGREE MOD_P)\<lparr>poly_is_ntt := True\<rparr>,
                  polyBModQ = (new_Polynomial DEGREE MOD_Q)\<lparr>poly_is_ntt := True\<rparr>,
                  polyBModP = (new_Polynomial DEGREE MOD_P)\<lparr>poly_is_ntt := True\<rparr>\<rparr>"

definition example_collection :: "nat \<Rightarrow> CollectionData" where
  "example_collection d =
     new_CollectionData d 2 example_key
       (replicate (2 ^ ceil_log2 d) (replicate (DEGREE div 2 ^ ceil_log2 d) example_key))
       (replicate (2 ^ ceil_log2 d) (replicate (DEGREE div 2 ^ ceil_log2 d)
          (replicate (4 * (DEGREE div 2 ^ ceil_log2 d))
             ((new_Polynomial (2 ^ ceil_log2 d) MOD_Q)\<lparr>poly_is_ntt := True\<rparr>))))
       (replicate PIR_RANK example_key)"

definition example_engine :: engine where
  "example_engine =
     \<lparr>cacheKeys = (\<lambda>ctx res keys. (res, None)),
      cacheQuery = (\<lambda>ctx query. Inr (new_CachedKeys (rank ctx))),
      cacheQueryPtxt = (\<lambda>ctx query. Inr (replicate (rank ctx) (new_Polynomial DEGREE MOD_Q))),
      innerProduct = (\<lambda>ctx cachedQuery cachedKey. Inr (new_Ciphertext False)),
      innerProductPtxt = (\<lambda>ctx cachedQuery cachedKey. Inr (new_Ciphertext False)),
      encodePIRPayload = (\<lambda>payload. (new_Polynomial DEGREE MOD_Q)\<lparr>poly_is_ntt := True\<rparr>),
      pir = (\<lambda>rlk invAutKeys queryFirstDim querySecondDim db. Inr (new_Ciphertext False)),
      allocate = (\<lambda>n. n < 2 ^ 30)\<rparr>"


section \<open>Properties\<close>

subsection \<open>Wrap-around arithmetic and Barrett reduction\<close>

lemma u64_sub_le: "b \<le> a \<Longrightarrow> a < 2 ^ 64 \<Longrightarrow> u64_sub a b = a - b"
proof -
  assume h: "b \<le> a" "a < 2 ^ 64"
  have "b mod 2 ^ 64 = b" using h by simp
  then have "a + (2 ^ 64 - b mod 2 ^ 64) = (a - b) + 2 ^ 64"
    using h by simp
  then have "u64_sub a b = ((a - b) + 2 ^ 64) mod 2 ^ 64"
    by (simp only: u64_sub_def)
  also have "\<dots> = (a - b) mod 2 ^ 64"
    by (rule mod_add_self2)
  also have "\<dots> = a - b"
    using h by (simp add: less_imp_diff_less)
  finally show ?thesis .
qed

lemma u64_mul_small: "a * b < 2 ^ 64 \<Longrightarrow> u64_mul a b = a * b"
  by (simp add: u64_mul_def)

lemma u64_add_small: "a + b < 2 ^ 64 \<Longrightarrow> u64_add a b = a + b"
  by (simp add: u64_add_def)

lemma barrett_quotient_bounds:
  fixes x m :: nat
  assumes m: "0 < m" and x: "x < 2 ^ 64"
  defines "q \<equiv> (x * (2 ^ 64 div m)) div 2 ^ 64"
  shows "q * m \<le> x" and "x < (q + 2) * m"
proof -
  let ?B = "(2::nat) ^ 64 div m"
  let ?W = "(2::nat) ^ 64"
  have Bm: "?B * m \<le> ?W" by (simp add: div_times_less_eq_dividend)
  have Bm2: "?W < (?B + 1) * m"
    using m by (metis Suc_eq_plus1 dividend_less_div_times mult.commute add.commute mult_Suc)
  have q1: "q * ?W \<le> x * ?B" unfolding q_def by (simp add: div_times_less_eq_dividend)
  have q2: "x * ?B < (q + 1) * ?W"
    unfolding q_def using dividend_less_div_times[of ?W "x * ?B"] by (simp add: algebra_simps)
  have "q * m * ?W = (q * ?W) * m" by (simp add: algebra_simps)
  also have "\<dots> \<le> (x * ?B) * m" using q1 by (rule mult_le_mono1)
  also have "\<dots> = x * (?B * m)" by (simp add: algebra_simps)
  also have "\<dots> \<le> x * ?W" using Bm by (rule mult_le_mono2)
  finally have "q * m * ?W \<le> x * ?W" .
  then show "q * m \<le> x" by simp
  have "x * ?W \<le> x * ((?B + 1) * m)" using Bm2 by (intro mult_le_mono2) simp
  also have "\<dots> = (x * ?B) * m + x * m" by (simp add: algebra_simps)
  also have "\<dots> < ((q + 1) * ?W) * m + ?W * m"
  proof -
    have a: "(x * ?B) * m < ((q + 1) * ?W) * m" using q2 m by simp
    have b: "x * m \<le> ?W * m" using x by simp
    show ?thesis using a b by linarith
  qed
  also have "\<dots> = ((q + 2) * m) * ?W" by (simp add: algebra_simps)
  finally have "x * ?W < ((q + 2) * m) * ?W" .
  then show "x < (q + 2) * m" by simp
qed

lemma BarrettReduce64_mod:
  assumes m: "0 < m" and x: "x < 2 ^ 64"
  shows "BarrettReduce64 x m (2 ^ 64 div m) = x mod m"
proof -
  define q where "q = (x * (2 ^ 64 div m)) div 2 ^ 64"
  have lo: "q * m \<le> x" and hi: "x < (q + 2) * m"
    using barrett_quotient_bounds[OF m x] by (simp_all add: q_def)
  have mul: "u64_mul q m = q * m" using lo x by (intro u64_mul_small) simp
  have sub: "u64_sub x (q * m) = x - q * m" using lo x by (rule u64_sub_le)
  define r where "r = x - q * m"
  have xr: "x = q * m + r" using lo by (simp add: r_def)
  have r2: "r < 2 * m" using hi xr by (simp add: algebra_simps)
  have res: "BarrettReduce64 x m (2 ^ 64 div m) = (if m \<le> r then r - m else r)"
    unfolding BarrettReduce64_def MultiplyUInt64Hi_def Let_def q_def[symmetric] mul sub r_def[symmetric]
    by (rule refl)
  show ?thesis
  proof (cases "m \<le> r")
    case True
    then have "x = (q + 1) * m + (r - m)" using xr by (simp add: algebra_simps)
    moreover have "r - m < m" using r2 True by simp
    ultimately have "x mod m = r - m" by (metis mod_mult_self3 mod_less)
    then show ?thesis using res True by simp
  next
    case False
    then have "x mod m = r" using xr by (metis mod_mult_self3 mod_less not_le)
    then show ?thesis using res False by simp
  qed
qed

subsection \<open>normMod\<close>

lemma normMod_coeff_Q_to_P:
  assumes c: "c < MOD_Q"
  shows "normMod_coeff MOD_Q MOD_P c < MOD_P"
    and "int (normMod_coeff MOD_Q MOD_P c) mod int MOD_P = center_lift MOD_Q c mod int MOD_P"
proof -
  have diff: "normMod_diff MOD_Q MOD_P = 18014398513938432"
    by (simp add: normMod_diff_def Let_def MOD_Q_def MOD_P_def u64_sub_def)
  have val: "normMod_coeff MOD_Q MOD_P c = (if c > 9007199245959168 then c + 18014398513938432 else c)"
    using c unfolding normMod_coeff_def Let_def diff
    by (simp add: MOD_Q_def MOD_P_def u64_add_def)
  show "normMod_coeff MOD_Q MOD_P c < MOD_P"
    using c unfolding val by (simp add: MOD_Q_def MOD_P_def)
  have "int (c + 18014398513938432) = (int c - 18014398491918337) + 36028797005856769"
    by simp
  then have "int (c + 18014398513938432) mod 36028797005856769 = (int c - 18014398491918337) mod 36028797005856769"
    by (metis mod_add_self2)
  then show "int (normMod_coeff MOD_Q MOD_P c) mod int MOD_P = center_lift MOD_Q c mod int MOD_P"
    unfolding val center_lift_def by (simp add: MOD_Q_def MOD_P_def)
qed

lemma normMod_coeff_P_to_Q:
  assumes c: "c < MOD_P"
  shows "normMod_coeff MOD_P MOD_Q c < MOD_Q"
    and "int (normMod_coeff MOD_P MOD_Q c) mod int MOD_Q = center_lift MOD_P c mod int MOD_Q"
proof -
  have Q0: "0 < MOD_Q" by (simp add: MOD_Q_def)
  have bq: "barr MOD_Q = 2 ^ 64 div MOD_Q"
    by (simp add: barr_def Q_BARR_def MOD_Q_def MOD_P_def)
  have red: "\<And>x. x < 2 ^ 64 \<Longrightarrow> BarrettReduce64 x MOD_Q (barr MOD_Q) = x mod MOD_Q"
    unfolding bq by (rule BarrettReduce64_mod [OF Q0])
  have "BarrettReduce64 MOD_P MOD_Q (barr MOD_Q) = MOD_P mod MOD_Q"
    by (rule red) (simp add: MOD_P_def)
  then have pq: "BarrettReduce64 MOD_P MOD_Q (barr MOD_Q) = 22020095"
    by (simp add: MOD_P_def MOD_Q_def)
  have diff: "normMod_diff MOD_P MOD_Q = 18014398469898242"
    unfolding normMod_diff_def Let_def pq
    by (simp add: MOD_Q_def MOD_P_def u64_sub_def)
  let ?t = "if c > 18014398502928384 then c + 18014398469898242 else c"
  have t64: "?t < 2 ^ 64" using c by (simp add: MOD_P_def)
  have "normMod_coeff MOD_P MOD_Q c = BarrettReduce64 ?t MOD_Q (barr MOD_Q)"
    using c unfolding normMod_coeff_def Let_def diff
    by (simp add: MOD_Q_def MOD_P_def u64_add_def)
  then have val: "normMod_coeff MOD_P MOD_Q c = ?t mod MOD_Q"
    using red [OF t64] by simp
  show "normMod_coeff MOD_P MOD_Q c < MOD_Q"
    unfolding val using Q0 by simp
  have "int (c + 18014398469898242) = (int c - 36028797005856769) + 18014398491918337 * 3"
    by simp
  then have "int (c + 18014398469898242) mod 18014398491918337 = (int c - 36028797005856769) mod 18014398491918337"
    by (metis mod_mult_self2)
  then show "int (normMod_coeff MOD_P MOD_Q c) mod int MOD_Q = center_lift MOD_P c mod int MOD_Q"
    unfolding val center_lift_def by (simp add: MOD_Q_def MOD_P_def zmod_int)
qed

text \<open>
  Claim C8. For both directions of the fixed moduli (\<open>Q\<close> to \<open>P\<close> and \<open>P\<close> to \<open>Q\<close>) and every
  input coefficient \<open>c\<close> below the source modulus, the coefficient that \<open>HEval::normMod\<close>
  writes is below the destination modulus and congruent, modulo the destination modulus, to
  the signed re-centring of \<open>c\<close>: \<open>c\<close> itself when \<open>c \<le> src / 2\<close> and \<open>c - src\<close> otherwise.
\<close>

theorem normMod_recentres:
  assumes mods: "(poly_mod op = MOD_Q \<and> poly_mod res = MOD_P) \<or> (poly_mod op = MOD_P \<and> poly_mod res = MOD_Q)"
    and len: "getDegree op \<le> getDegree res"
    and i: "i < getDegree op"
    and c: "poly_data op ! i < poly_mod op"
  shows "\<exists>res'. normMod res op = Inr res' \<and>
           poly_data res' ! i < poly_mod res \<and>
           int (poly_data res' ! i) mod int (poly_mod res)
             = center_lift (poly_mod op) (poly_data op ! i) mod int (poly_mod res)"
proof -
  let ?res' = "res\<lparr>poly_data := map (normMod_coeff (poly_mod op) (poly_mod res)) (poly_data op)
                        @ drop (getDegree op) (poly_data res), poly_is_ntt := False\<rparr>"
  have r: "normMod res op = Inr ?res'" using len by (simp add: normMod_def)
  have nth: "poly_data ?res' ! i = normMod_coeff (poly_mod op) (poly_mod res) (poly_data op ! i)"
    using i by (simp add: getDegree_def nth_append)
  from mods show ?thesis
  proof
    assume m: "poly_mod op = MOD_Q \<and> poly_mod res = MOD_P"
    then have "poly_data op ! i < MOD_Q" using c by simp
    from normMod_coeff_Q_to_P [OF this] show ?thesis
      using r nth m by simp
  next
    assume m: "poly_mod op = MOD_P \<and> poly_mod res = MOD_Q"
    then have "poly_data op ! i < MOD_P" using c by simp
    from normMod_coeff_P_to_Q [OF this] show ?thesis
      using r nth m by simp
  qed
qed

theorem normMod_recentres_witness:
  "\<exists>res'. normMod (new_Polynomial 2 MOD_Q)
             \<lparr>poly_is_ntt = False, poly_mod = MOD_P, poly_data = [5, 36028797005856768]\<rparr> = Inr res' \<and>
          poly_data res' ! 1 < MOD_Q \<and>
          int (poly_data res' ! 1) mod int MOD_Q = center_lift MOD_P 36028797005856768 mod int MOD_Q"
proof -
  let ?op = "\<lparr>poly_is_ntt = False, poly_mod = MOD_P, poly_data = [5, 36028797005856768]\<rparr>"
  let ?res = "new_Polynomial 2 MOD_Q"
  have h1: "(poly_mod ?op = MOD_Q \<and> poly_mod ?res = MOD_P) \<or> (poly_mod ?op = MOD_P \<and> poly_mod ?res = MOD_Q)"
    by (simp add: new_Polynomial_def)
  have h2: "getDegree ?op \<le> getDegree ?res" by (simp add: getDegree_def new_Polynomial_def)
  have h3: "1 < getDegree ?op" by (simp add: getDegree_def)
  have h4: "poly_data ?op ! 1 < poly_mod ?op" by (simp add: MOD_P_def)
  show ?thesis
    using normMod_recentres [OF h1 h2 h3 h4] by (simp add: new_Polynomial_def)
qed

subsection \<open>The product of two ciphertexts\<close>

lemma eltwise_full: "length res = n \<Longrightarrow> eltwise f res op1 op2 n = map (\<lambda>i. f (op1 ! i) (op2 ! i)) [0..<n]"
  by (simp add: eltwise_def)

lemma rank1_ntt_ctD:
  assumes "rank1_ntt_ct ct"
  shows "ntt_poly_mod_Q (getA ct)" "ntt_poly_mod_Q (getB ct)" "getIsNTT ct"
proof -
  from assms obtain a b where ab: "polys ct = [a, b]"
    by (auto simp: rank1_ntt_ct_def length_Suc_conv numeral_2_eq_2)
  with assms show "ntt_poly_mod_Q (getA ct)" "ntt_poly_mod_Q (getB ct)"
    by (simp_all add: rank1_ntt_ct_def getA_def getB_def)
  then show "getIsNTT ct" by (simp add: getIsNTT_def getA_def ntt_poly_mod_Q_def)
qed

lemma extended_ctD:
  assumes "extended_ct ct"
  shows "poly_mod (getA ct) = MOD_Q" "getDegree (getA ct) = DEGREE"
        "poly_mod (getB ct) = MOD_Q" "getDegree (getB ct) = DEGREE"
        "poly_mod (getC ct) = MOD_Q" "getDegree (getC ct) = DEGREE"
        "getIsExtended ct"
proof -
  from assms obtain a b c where abc: "polys ct = [a, b, c]"
    by (auto simp: extended_ct_def length_Suc_conv numeral_3_eq_3)
  with assms show "poly_mod (getA ct) = MOD_Q" "getDegree (getA ct) = DEGREE"
        "poly_mod (getB ct) = MOD_Q" "getDegree (getB ct) = DEGREE"
        "poly_mod (getC ct) = MOD_Q" "getDegree (getC ct) = DEGREE"
        "getIsExtended ct"
    by (simp_all add: extended_ct_def getA_def getB_def getC_def getIsExtended_def)
qed

lemma mult_poly_ok:
  assumes "ntt_poly_mod_Q p" "ntt_poly_mod_Q q" "poly_mod r = MOD_Q" "getDegree r = DEGREE"
  shows "mult_poly r p q = Inr (r\<lparr>poly_data := pointwise (\<lambda>a b. (a * b) mod MOD_Q) p q, poly_is_ntt := True\<rparr>)"
  using assms
  by (simp add: mult_poly_def ntt_poly_mod_Q_def EltwiseMultMod_def pointwise_def getDegree_def eltwise_full)

text \<open>
  Claim C9. For rank-1 ciphertexts \<open>ct1\<close>, \<open>ct2\<close> in NTT form modulo \<open>Q\<close> and an extended
  result ciphertext, \<open>HEval::mult\<close> sets \<open>res.A\<close> to the coefficient-wise product
  \<open>ct1.A * ct2.A mod Q\<close>, \<open>res.B\<close> to \<open>ct1.A * ct2.B + ct1.B * ct2.A mod Q\<close> and \<open>res.C\<close> to
  \<open>ct1.B * ct2.B mod Q\<close>. It throws the NTT-state exception when an operand is not in NTT
  form, and the extended-state exception when the operands are in NTT form and \<open>res\<close> is not
  extended.
\<close>

theorem mult_ct_components:
  "(rank1_ntt_ct ct1 \<and> rank1_ntt_ct ct2 \<and> extended_ct res \<longrightarrow>
      (\<exists>r. mult_ct res ct1 ct2 = Inr r \<and> getIsExtended r \<and>
           poly_data (getA r) = pointwise (\<lambda>a b. (a * b) mod MOD_Q) (getA ct1) (getA ct2) \<and>
           poly_data (getB r) = map (\<lambda>i. (poly_data (getA ct1) ! i * poly_data (getB ct2) ! i
                                    + poly_data (getB ct1) ! i * poly_data (getA ct2) ! i) mod MOD_Q)
                                 [0..<DEGREE] \<and>
           poly_data (getC r) = pointwise (\<lambda>a b. (a * b) mod MOD_Q) (getB ct1) (getB ct2) \<and>
           list_all (\<lambda>p. poly_is_ntt p \<and> poly_mod p = MOD_Q) (polys r)))
   \<and> (\<not> getIsNTT ct1 \<or> \<not> getIsNTT ct2 \<longrightarrow> mult_ct res ct1 ct2 = Inl InvalidNTTStateException)
   \<and> (getIsNTT ct1 \<and> getIsNTT ct2 \<and> \<not> getIsExtended res \<longrightarrow>
        mult_ct res ct1 ct2 = Inl InvalidExtendedStateException)"
proof (intro conjI impI)
  assume "rank1_ntt_ct ct1 \<and> rank1_ntt_ct ct2 \<and> extended_ct res"
  then have c1: "rank1_ntt_ct ct1" and c2: "rank1_ntt_ct ct2" and r: "extended_ct res" by simp_all
  note A1 = rank1_ntt_ctD(1) [OF c1] and B1 = rank1_ntt_ctD(2) [OF c1]
  note A2 = rank1_ntt_ctD(1) [OF c2] and B2 = rank1_ntt_ctD(2) [OF c2]
  note R = extended_ctD [OF r]
  let ?mul = "\<lambda>a b. (a * b) mod MOD_Q"
  let ?a = "(getA res)\<lparr>poly_data := pointwise ?mul (getA ct1) (getA ct2), poly_is_ntt := True\<rparr>"
  let ?c = "(getC res)\<lparr>poly_data := pointwise ?mul (getB ct1) (getB ct2), poly_is_ntt := True\<rparr>"
  let ?t = "(new_Polynomial (getDegree (getA ct1)) MOD_Q)\<lparr>poly_data := pointwise ?mul (getA ct1) (getB ct2), poly_is_ntt := True\<rparr>"
  let ?b = "(getB res)\<lparr>poly_data := pointwise ?mul (getB ct1) (getA ct2), poly_is_ntt := True\<rparr>"
  let ?sum = "map (\<lambda>i. (poly_data (getA ct1) ! i * poly_data (getB ct2) ! i
                                    + poly_data (getB ct1) ! i * poly_data (getA ct2) ! i) mod MOD_Q)
                                 [0..<DEGREE]"
  let ?b' = "?b\<lparr>poly_data := ?sum\<rparr>"
  have ea: "mult_poly (getA res) (getA ct1) (getA ct2) = Inr ?a"
    by (rule mult_poly_ok [OF A1 A2 R(1) R(2)])
  have ec: "mult_poly (getC res) (getB ct1) (getB ct2) = Inr ?c"
    by (rule mult_poly_ok [OF B1 B2 R(5) R(6)])
  have dA: "getDegree (getA ct1) = DEGREE" using A1 by (simp add: ntt_poly_mod_Q_def)
  have et: "mult_poly (new_Polynomial (getDegree (getA ct1)) MOD_Q) (getA ct1) (getB ct2) = Inr ?t"
    by (rule mult_poly_ok [OF A1 B2]) (simp_all add: new_Polynomial_def getDegree_def dA [unfolded getDegree_def])
  have eb: "mult_poly (getB res) (getB ct1) (getA ct2) = Inr ?b"
    by (rule mult_poly_ok [OF B1 A2 R(3) R(4)])
  have "add_poly ?b ?t ?b = Inr (?b\<lparr>poly_data := map (\<lambda>i. (poly_data ?t ! i + poly_data ?b ! i) mod MOD_Q) [0..<DEGREE]\<rparr>)"
    using R(3)
    by (simp add: add_poly_def new_Polynomial_def getDegree_def pointwise_def EltwiseAddMod_def eltwise_full)
  moreover have "map (\<lambda>i. (poly_data ?t ! i + poly_data ?b ! i) mod MOD_Q) [0..<DEGREE] = ?sum"
    by (rule map_cong [OF refl]) (simp add: pointwise_def mod_add_eq mult.commute)
  ultimately have eadd: "add_poly ?b ?t ?b = Inr ?b'" by simp
  have res: "mult_ct res ct1 ct2 = Inr (res\<lparr>polys := [?a, ?b', ?c]\<rparr>)"
    unfolding mult_ct_def using rank1_ntt_ctD(3) [OF c1] rank1_ntt_ctD(3) [OF c2] R(7)
    by (simp only: ea ec et eb eadd sum.case simp_thms if_False)
  show "\<exists>r. mult_ct res ct1 ct2 = Inr r \<and> getIsExtended r \<and>
           poly_data (getA r) = pointwise ?mul (getA ct1) (getA ct2) \<and>
           poly_data (getB r) = ?sum \<and>
           poly_data (getC r) = pointwise ?mul (getB ct1) (getB ct2) \<and>
           list_all (\<lambda>p. poly_is_ntt p \<and> poly_mod p = MOD_Q) (polys r)"
    unfolding res using R
    by (simp add: getIsExtended_def getA_def getB_def getC_def)
next
  assume "\<not> getIsNTT ct1 \<or> \<not> getIsNTT ct2"
  then show "mult_ct res ct1 ct2 = Inl InvalidNTTStateException"
    by (simp add: mult_ct_def)
next
  assume "getIsNTT ct1 \<and> getIsNTT ct2 \<and> \<not> getIsExtended res"
  then show "mult_ct res ct1 ct2 = Inl InvalidExtendedStateException"
    by (simp add: mult_ct_def)
qed

theorem mult_ct_components_witness:
  "(\<exists>r. mult_ct (new_Ciphertext True)
            \<lparr>polys = [\<lparr>poly_is_ntt = True, poly_mod = MOD_Q, poly_data = replicate DEGREE 2\<rparr>,
                      \<lparr>poly_is_ntt = True, poly_mod = MOD_Q, poly_data = replicate DEGREE 3\<rparr>]\<rparr>
            \<lparr>polys = [\<lparr>poly_is_ntt = True, poly_mod = MOD_Q, poly_data = replicate DEGREE 5\<rparr>,
                      \<lparr>poly_is_ntt = True, poly_mod = MOD_Q, poly_data = replicate DEGREE 7\<rparr>]\<rparr> = Inr r \<and>
        poly_data (getA r) ! 0 = 10 \<and> poly_data (getB r) ! 0 = 29 \<and> poly_data (getC r) ! 0 = 21)
   \<and> mult_ct (new_Ciphertext True) (new_Ciphertext False) (new_Ciphertext False) = Inl InvalidNTTStateException
   \<and> mult_ct (new_Ciphertext False)
        \<lparr>polys = [\<lparr>poly_is_ntt = True, poly_mod = MOD_Q, poly_data = replicate DEGREE 2\<rparr>,
                  \<lparr>poly_is_ntt = True, poly_mod = MOD_Q, poly_data = replicate DEGREE 3\<rparr>]\<rparr>
        \<lparr>polys = [\<lparr>poly_is_ntt = True, poly_mod = MOD_Q, poly_data = replicate DEGREE 5\<rparr>,
                  \<lparr>poly_is_ntt = True, poly_mod = MOD_Q, poly_data = replicate DEGREE 7\<rparr>]\<rparr>
       = Inl InvalidExtendedStateException"
proof -
  let ?c1 = "\<lparr>polys = [\<lparr>poly_is_ntt = True, poly_mod = MOD_Q, poly_data = replicate DEGREE 2\<rparr>,
                      \<lparr>poly_is_ntt = True, poly_mod = MOD_Q, poly_data = replicate DEGREE 3\<rparr>]\<rparr>"
  let ?c2 = "\<lparr>polys = [\<lparr>poly_is_ntt = True, poly_mod = MOD_Q, poly_data = replicate DEGREE 5\<rparr>,
                      \<lparr>poly_is_ntt = True, poly_mod = MOD_Q, poly_data = replicate DEGREE 7\<rparr>]\<rparr>"
  have w1: "rank1_ntt_ct ?c1" and w2: "rank1_ntt_ct ?c2"
    by (simp_all add: rank1_ntt_ct_def ntt_poly_mod_Q_def getDegree_def coeffs_reduced_def
        list_all_iff MOD_Q_def)
  have w3: "extended_ct (new_Ciphertext True)"
    by (simp add: extended_ct_def new_Ciphertext_def new_Polynomial_def getDegree_def list_all_iff)
  have n1: "getIsNTT ?c1" "getIsNTT ?c2" by (simp_all add: getIsNTT_def)
  have n2: "\<not> getIsNTT (new_Ciphertext False)"
    by (simp add: getIsNTT_def new_Ciphertext_def new_Polynomial_def)
  have n3: "\<not> getIsExtended (new_Ciphertext False)"
    by (simp add: getIsExtended_def new_Ciphertext_def)
  have z: "(0::nat) < DEGREE" by (simp add: DEGREE_def)
  have A: "\<exists>r. mult_ct (new_Ciphertext True) ?c1 ?c2 = Inr r \<and>
        poly_data (getA r) ! 0 = 10 \<and> poly_data (getB r) ! 0 = 29 \<and> poly_data (getC r) ! 0 = 21"
    using mult_ct_components [of ?c1 ?c2 "new_Ciphertext True"] w1 w2 w3 z
    by (auto simp: pointwise_def getA_def getB_def getC_def MOD_Q_def)
  have B: "mult_ct (new_Ciphertext True) (new_Ciphertext False) (new_Ciphertext False) = Inl InvalidNTTStateException"
    using mult_ct_components [of "new_Ciphertext False" "new_Ciphertext False" "new_Ciphertext True"] n2
    by blast
  have C: "mult_ct (new_Ciphertext False) ?c1 ?c2 = Inl InvalidExtendedStateException"
    using mult_ct_components [of ?c1 ?c2 "new_Ciphertext False"] n1 n3
    by blast
  show ?thesis using A B C by blast
qed

subsection \<open>The automorphism\<close>

lemma and_low_mask_nat: "(x::nat) AND (2 ^ n - 1) = x mod 2 ^ n"
  by (metis mask_eq_exp_minus_1 take_bit_eq_mask take_bit_eq_mod)

lemma fold_update_length:
  "length (fold (\<lambda>i r. r[f i := g i]) is xs) = length xs"
  by (induction "is" arbitrary: xs) simp_all

lemma fold_update_nth:
  assumes "inj_on f {..<n}" "i < n" "f i < length xs"
  shows "fold (\<lambda>i r. r[f i := g i]) [0..<n] xs ! f i = g i"
  using assms
proof (induction n)
  case 0
  then show ?case by simp
next
  case (Suc n)
  let ?ys = "fold (\<lambda>i r. r[f i := g i]) [0..<n] xs"
  have len: "length ?ys = length xs" by (rule fold_update_length)
  have step: "fold (\<lambda>i r. r[f i := g i]) [0..<Suc n] xs = ?ys[f n := g n]" by simp
  show ?case
  proof (cases "i = n")
    case True
    then show ?thesis using Suc.prems len by (simp only: step) simp
  next
    case False
    then have i: "i < n" using Suc.prems by simp
    have inj: "inj_on f {..<n}" using Suc.prems(1) by (rule inj_on_subset) auto
    have "f i \<noteq> f n" using Suc.prems(1) i by (auto simp: inj_on_def)
    then have "?ys[f n := g n] ! f i = ?ys ! f i" by simp
    also have "\<dots> = g i" using Suc.IH [OF inj i Suc.prems(3)] .
    finally show ?thesis by (simp only: step)
  qed
qed

lemma odd_coprime_pow2: "odd (e::nat) \<Longrightarrow> coprime e (2 ^ k)"
  by (simp add: coprime_right_2_iff_odd)

lemma mult_odd_inj_mod_pow2:
  assumes e: "odd (e::nat)"
  shows "inj_on (\<lambda>i. (i * e) mod 2 ^ k) {..<2 ^ k}"
proof (rule inj_onI)
  fix i j :: nat
  assume ij: "i \<in> {..<2 ^ k}" "j \<in> {..<2 ^ k}" and eq: "(i * e) mod 2 ^ k = (j * e) mod 2 ^ k"
  have cop: "coprime (2 ^ k) e" using odd_coprime_pow2 [OF e] by (simp add: coprime_commute)
  have aux: "a = b" if ab: "a \<le> b" "b < 2 ^ k" and h: "(a * e) mod 2 ^ k = (b * e) mod 2 ^ k" for a b :: nat
  proof -
    have "a * e \<le> b * e" using ab by simp
    moreover have "(b * e) mod 2 ^ k = (a * e) mod 2 ^ k" using h by simp
    ultimately have "2 ^ k dvd b * e - a * e" by (simp only: mod_eq_dvd_iff_nat)
    then have "2 ^ k dvd (b - a) * e" by (simp add: diff_mult_distrib)
    then have "2 ^ k dvd (b - a)" using cop by (simp add: coprime_dvd_mult_left_iff)
    moreover have "b - a < 2 ^ k" using ab by simp
    ultimately have "b - a = 0" by (meson dvd_imp_le not_less zero_less_iff_neq_zero)
    then show ?thesis using ab by simp
  qed
  show "i = j"
  proof (cases "i \<le> j")
    case True
    then show ?thesis using aux [of i j] ij eq by simp
  next
    case False
    then show ?thesis using aux [of j i] ij eq by simp
  qed
qed

lemma mult_odd_surj_mod_pow2:
  assumes e: "odd (e::nat)" and t: "t < 2 ^ k"
  shows "\<exists>i<2 ^ k. (i * e) mod 2 ^ k = t"
proof -
  let ?f = "\<lambda>i. (i * e) mod 2 ^ k"
  have "?f ` {..<2 ^ k} \<subseteq> {..<2 ^ k}" by auto
  then have "?f ` {..<2 ^ k} = {..<2 ^ k}"
    using mult_odd_inj_mod_pow2 [OF e] by (intro endo_inj_surj) auto
  then have "t \<in> ?f ` {..<2 ^ k}" using t by simp
  then show ?thesis by auto
qed

lemma aut_index_pow2:
  assumes k: "k < 63"
  shows "aut_index i e (2 ^ k) =
           ((i * e) mod 2 ^ k, (i * e) mod (2 * 2 ^ k) < 2 ^ k)"
proof -
  have m2: "u64_mul 2 (2 ^ k) = 2 ^ Suc k"
  proof -
    have "(2::nat) ^ Suc k < 2 ^ 64" using k by (intro power_strict_increasing) simp_all
    then show ?thesis by (simp add: u64_mul_def)
  qed
  have "(1::nat) \<le> 2 ^ Suc k" by simp
  moreover have "(2::nat) ^ Suc k < 2 ^ 64" using k by (intro power_strict_increasing) simp_all
  ultimately have mask: "u64_sub (u64_mul 2 (2 ^ k)) 1 = 2 ^ Suc k - 1"
    unfolding m2 by (rule u64_sub_le)
  have dv: "(2::nat) ^ Suc k dvd 2 ^ 64" using k by (intro le_imp_power_dvd) simp
  have "(u64_mul i e) AND (2 ^ Suc k - 1) = (i * e) mod 2 ^ 64 mod 2 ^ Suc k"
    by (simp only: and_low_mask_nat u64_mul_def)
  also have "\<dots> = (i * e) mod 2 ^ Suc k" using dv by (rule mod_mod_cancel)
  finally have idx: "(u64_mul i e) AND (u64_sub (u64_mul 2 (2 ^ k)) 1) = (i * e) mod 2 ^ Suc k"
    by (simp only: mask)
  let ?x = "(i * e) mod (2 * 2 ^ k)"
  have idx: "(u64_mul i e) AND (u64_sub (u64_mul 2 (2 ^ k)) 1) = ?x"
    using idx by simp
  have lt: "?x < 2 * 2 ^ k" by (rule mod_less_divisor) simp
  have dv2: "(2::nat) ^ k dvd 2 * 2 ^ k" by simp
  have md: "?x mod 2 ^ k = (i * e) mod 2 ^ k" using dv2 by (rule mod_mod_cancel)
  show ?thesis
  proof (cases "?x < 2 ^ k")
    case True
    then have "?x = (i * e) mod 2 ^ k" using md by simp
    then show ?thesis using True unfolding aut_index_def idx Let_def by (simp add: not_le)
  next
    case False
    then have "(?x - 2 ^ k) mod 2 ^ k = ?x mod 2 ^ k" by (simp add: le_mod_geq)
    moreover have "?x - 2 ^ k < 2 ^ k" using lt False by linarith
    ultimately have "?x - 2 ^ k = (i * e) mod 2 ^ k" using md by simp
    then show ?thesis using False unfolding aut_index_def idx Let_def by (simp add: not_le)
  qed
qed

lemma aut_pow2:
  assumes k: "k < 63" and ntt: "\<not> poly_is_ntt p"
    and lp: "getDegree p = 2 ^ k" and lr: "getDegree res = 2 ^ k"
  shows "aut False res p e (2 ^ k) =
           Inr (res\<lparr>poly_data := fold (\<lambda>i r. r[(i * e) mod 2 ^ k :=
                                          aut_coeff (poly_mod p) (2 ^ k) e i (poly_data p ! i)])
                                        [0..<2 ^ k] (poly_data res),
                    poly_is_ntt := False\<rparr>)"
proof -
  have row: "aut_row (poly_mod p) (poly_data p) e (2 ^ k) (Suc 0) =
        (\<lambda>i r. r[(i * e) mod 2 ^ k := aut_coeff (poly_mod p) (2 ^ k) e i (poly_data p ! i)])"
    by (intro ext) (simp add: aut_row_def aut_index_pow2 [OF k] aut_coeff_def)
  show ?thesis
    using ntt lp lr by (simp add: aut_def row)
qed

lemma aut_pow2_nth:
  assumes e: "odd e" and i: "i < 2 ^ k" and len: "length xs = 2 ^ k"
  shows "fold (\<lambda>i r. r[(i * e) mod 2 ^ k := g i]) [0..<2 ^ k] xs ! ((i * e) mod 2 ^ k) = g i"
  by (rule fold_update_nth [OF mult_odd_inj_mod_pow2 [OF e] i]) (simp add: len)

lemma negate_coeff_involution:
  assumes "c < m" "m < 2 ^ 64"
  shows "negate_coeff m (negate_coeff m c) = c" "negate_coeff m c < m \<or> m = 0"
proof -
  have s: "u64_sub m c = m - c" using assms by (intro u64_sub_le) simp_all
  have s2: "u64_sub m (m - c) = m - (m - c)" using assms by (intro u64_sub_le) simp_all
  show "negate_coeff m (negate_coeff m c) = c"
    using assms by (simp add: negate_coeff_def s s2)
  show "negate_coeff m c < m \<or> m = 0"
    using assms by (simp add: negate_coeff_def s)
qed

lemma sign_compose:
  fixes a r e :: nat
  assumes r: "0 < r" and e: "odd e"
  shows "((a * e) mod (2 * r) < r) \<longleftrightarrow> ((a mod (2 * r) < r) \<longleftrightarrow> (((a mod r) * e) mod (2 * r) < r))"
proof -
  let ?j = "a mod r"
  let ?y = "(?j * e) mod (2 * r)"
  have y: "?y < 2 * r" using r by simp
  have jr: "(a mod (2 * r)) mod r = ?j" by (rule mod_mod_cancel) simp
  have ae: "(a * e) mod (2 * r) = ((a mod (2 * r)) * e) mod (2 * r)"
    by (simp add: mod_mult_left_eq)
  show ?thesis
  proof (cases "a mod (2 * r) < r")
    case True
    then have "a mod (2 * r) = ?j" using jr by simp
    then show ?thesis using True ae by simp
  next
    case False
    have "a mod (2 * r) < 2 * r" using r by simp
    then have "(a mod (2 * r) - r) mod r = a mod (2 * r) - r" using False by simp
    moreover have "(a mod (2 * r) - r) mod r = (a mod (2 * r)) mod r" using False by (simp add: le_mod_geq)
    ultimately have am: "a mod (2 * r) = ?j + r" using jr False by simp
    obtain t where t: "e = 2 * t + 1" using e by (auto elim: oddE)
    have "(?j + r) * e = ?j * e + r + (2 * r) * t" by (simp add: t algebra_simps)
    then have "((?j + r) * e) mod (2 * r) = (?j * e + r) mod (2 * r)" by simp
    also have "\<dots> = (?y + r) mod (2 * r)" by (simp add: mod_add_left_eq)
    finally have eq: "(a * e) mod (2 * r) = (?y + r) mod (2 * r)" using ae am by simp
    show ?thesis
    proof (cases "?y < r")
      case True
      then have "(?y + r) mod (2 * r) = ?y + r" by simp
      then show ?thesis using True False eq by simp
    next
      case F2: False
      then have "(?y + r) mod (2 * r) = ?y + r - 2 * r" using y by (simp add: le_mod_geq)
      then have "(?y + r) mod (2 * r) < r" using y F2 by simp
      then show ?thesis using F2 False eq by simp
    qed
  qed
qed

lemma aut_coeff_compose:
  assumes r: "0 < r" and e2: "odd e2" and c: "c < m" and m: "m < 2 ^ 64"
  shows "aut_coeff m r e2 ((i * e1) mod r) (aut_coeff m r e1 i c)
           = aut_coeff m r ((e1 * e2) mod (2 * r)) i c"
proof -
  have "(i * ((e1 * e2) mod (2 * r))) mod (2 * r) = ((i * e1) * e2) mod (2 * r)"
    by (simp add: mod_mult_right_eq mult.assoc)
  then have s3: "((i * ((e1 * e2) mod (2 * r))) mod (2 * r) < r) \<longleftrightarrow>
        (((i * e1) mod (2 * r) < r) \<longleftrightarrow> ((((i * e1) mod r) * e2) mod (2 * r) < r))"
    using sign_compose [OF r e2, of "i * e1"] by simp
  show ?thesis
    unfolding aut_coeff_def using s3 negate_coeff_involution(1) [OF c m]
    by auto
qed

lemma index_compose:
  fixes r :: nat
  shows "(((i * e1) mod r) * e2) mod r = (i * (e1 * e2)) mod r"
    and "(i * ((e1 * e2) mod (2 * r))) mod r = (i * (e1 * e2)) mod r"
proof -
  show "(((i * e1) mod r) * e2) mod r = (i * (e1 * e2)) mod r"
    by (simp add: mod_mult_left_eq mult.assoc)
  have "(i * ((e1 * e2) mod (2 * r))) mod r = ((i mod r) * (((e1 * e2) mod (2 * r)) mod r)) mod r"
    by (simp add: mod_mult_eq)
  also have "((e1 * e2) mod (2 * r)) mod r = (e1 * e2) mod r" by (rule mod_mod_cancel) simp
  also have "((i mod r) * ((e1 * e2) mod r)) mod r = (i * (e1 * e2)) mod r"
    by (simp add: mod_mult_eq)
  finally show "(i * ((e1 * e2) mod (2 * r))) mod r = (i * (e1 * e2)) mod r" .
qed

lemma odd_mod_even:
  fixes a b :: nat
  assumes "odd a" "even b"
  shows "odd (a mod b)"
proof -
  have "(a mod b) mod 2 = a mod 2" using assms(2) by (rule mod_mod_cancel)
  then show ?thesis using assms(1) by (simp only: even_iff_mod_2_eq_zero) simp
qed

lemma aut_pow2_ex:
  assumes k: "k < 63" and ntt: "\<not> poly_is_ntt p"
    and lp: "getDegree p = 2 ^ k" and lr: "getDegree res = 2 ^ k" and e: "odd e"
  shows "\<exists>q. aut False res p e (2 ^ k) = Inr q \<and> \<not> poly_is_ntt q \<and> poly_mod q = poly_mod res \<and>
           length (poly_data q) = 2 ^ k \<and>
           (\<forall>i<2 ^ k. poly_data q ! ((i * e) mod 2 ^ k) = aut_coeff (poly_mod p) (2 ^ k) e i (poly_data p ! i))"
proof -
  define g where "g = (\<lambda>i. aut_coeff (poly_mod p) (2 ^ k) e i (poly_data p ! i))"
  define F where "F = fold (\<lambda>i r. r[(i * e) mod 2 ^ k := g i]) [0..<2 ^ k] (poly_data res)"
  have a: "aut False res p e (2 ^ k) = Inr (res\<lparr>poly_data := F, poly_is_ntt := False\<rparr>)"
    unfolding F_def g_def by (rule aut_pow2 [OF k ntt lp lr])
  have len: "length (poly_data res) = 2 ^ k" using lr by (simp add: getDegree_def)
  have lenF: "length F = 2 ^ k" unfolding F_def by (simp only: fold_update_length len)
  have nth: "\<forall>i<2 ^ k. F ! ((i * e) mod 2 ^ k) = g i"
    unfolding F_def using aut_pow2_nth [OF e _ len] by blast
  show ?thesis
    unfolding a using lenF nth by (simp add: g_def)
qed

text \<open>
  Claim C7. For a polynomial \<open>p\<close> of degree \<open>rk\<close> (a power of two) that is not in NTT form and
  has reduced coefficients, and odd exponents \<open>e1\<close>, \<open>e2\<close>: \<open>HEval::aut\<close> with \<open>e1\<close> followed by
  \<open>HEval::aut\<close> with \<open>e2\<close> yields the same polynomial as one \<open>HEval::aut\<close> with the exponent
  \<open>(e1 * e2) mod (2 * rk)\<close>. The result buffers \<open>r1\<close>, \<open>r2\<close>, \<open>r3\<close> are distinct from the
  operands, of the same degree, and carry the modulus of \<open>p\<close> along.
\<close>

theorem aut_group_law:
  assumes k: "k < 63" and rk: "rk = 2 ^ k"
    and e1: "odd e1" and e2: "odd e2"
    and p: "\<not> poly_is_ntt p" "getDegree p = rk" "coeffs_reduced p" "poly_mod p < 2 ^ 64"
    and r1: "getDegree r1 = rk" "poly_mod r1 = poly_mod p"
    and r2: "getDegree r2 = rk" and r3: "getDegree r3 = rk" "poly_mod r3 = poly_mod r2"
  shows "\<exists>p1 p2 p3. aut False r1 p e1 rk = Inr p1 \<and> aut False r2 p1 e2 rk = Inr p2 \<and>
           aut False r3 p ((e1 * e2) mod (2 * rk)) rk = Inr p3 \<and>
           poly_data p2 = poly_data p3 \<and> poly_is_ntt p2 = poly_is_ntt p3 \<and> poly_mod p2 = poly_mod p3"
proof -
  define m where "m = poly_mod p"
  define e3 where "e3 = (e1 * e2) mod (2 * 2 ^ k)"
  have e12: "odd (e1 * e2)" using e1 e2 by simp
  have e3: "odd e3" unfolding e3_def using e12 by (rule odd_mod_even) simp
  from aut_pow2_ex [OF k p(1) p(2) [unfolded rk] r1(1) [unfolded rk] e1]
  obtain p1 where p1: "aut False r1 p e1 (2 ^ k) = Inr p1" "\<not> poly_is_ntt p1" "poly_mod p1 = poly_mod r1"
      "length (poly_data p1) = 2 ^ k"
      "\<forall>i<2 ^ k. poly_data p1 ! ((i * e1) mod 2 ^ k) = aut_coeff (poly_mod p) (2 ^ k) e1 i (poly_data p ! i)"
    by blast
  have dp1: "getDegree p1 = 2 ^ k" using p1(4) by (simp add: getDegree_def)
  from aut_pow2_ex [OF k p1(2) dp1 r2 [unfolded rk] e2]
  obtain p2 where p2: "aut False r2 p1 e2 (2 ^ k) = Inr p2" "\<not> poly_is_ntt p2" "poly_mod p2 = poly_mod r2"
      "length (poly_data p2) = 2 ^ k"
      "\<forall>i<2 ^ k. poly_data p2 ! ((i * e2) mod 2 ^ k) = aut_coeff (poly_mod p1) (2 ^ k) e2 i (poly_data p1 ! i)"
    by blast
  from aut_pow2_ex [OF k p(1) p(2) [unfolded rk] r3(1) [unfolded rk] e3]
  obtain p3 where p3: "aut False r3 p e3 (2 ^ k) = Inr p3" "\<not> poly_is_ntt p3" "poly_mod p3 = poly_mod r3"
      "length (poly_data p3) = 2 ^ k"
      "\<forall>i<2 ^ k. poly_data p3 ! ((i * e3) mod 2 ^ k) = aut_coeff (poly_mod p) (2 ^ k) e3 i (poly_data p ! i)"
    by blast
  have mp1: "poly_mod p1 = m" using p1(3) r1(2) by (simp add: m_def)
  have data: "poly_data p2 = poly_data p3"
  proof (rule nth_equalityI)
    show "length (poly_data p2) = length (poly_data p3)" using p2(4) p3(4) by simp
  next
    fix t assume "t < length (poly_data p2)"
    then have t: "t < 2 ^ k" using p2(4) by simp
    from mult_odd_surj_mod_pow2 [OF e12 t]
    obtain i where i: "i < 2 ^ k" and it: "(i * (e1 * e2)) mod 2 ^ k = t" by blast
    define j where "j = (i * e1) mod 2 ^ k"
    have j: "j < 2 ^ k" unfolding j_def by simp
    define c where "c = poly_data p ! i"
    have c: "c < m"
      using p(2,3) i unfolding c_def m_def coeffs_reduced_def list_all_length getDegree_def rk by simp
    have i2: "(j * e2) mod 2 ^ k = t" unfolding j_def using it by (simp only: index_compose)
    have i3: "(i * e3) mod 2 ^ k = t" unfolding e3_def using it by (simp only: index_compose)
    have "poly_data p2 ! ((j * e2) mod 2 ^ k) = aut_coeff m (2 ^ k) e2 j (poly_data p1 ! j)"
      using p2(5) j unfolding mp1 by blast
    also have "poly_data p1 ! j = aut_coeff m (2 ^ k) e1 i c"
      using p1(5) i unfolding j_def c_def m_def by blast
    also have "aut_coeff m (2 ^ k) e2 j (aut_coeff m (2 ^ k) e1 i c) = aut_coeff m (2 ^ k) e3 i c"
      unfolding j_def e3_def
      by (rule aut_coeff_compose [OF _ e2 c p(4) [folded m_def]]) simp
    also have "\<dots> = poly_data p3 ! ((i * e3) mod 2 ^ k)"
      using p3(5) i unfolding c_def m_def by simp
    finally show "poly_data p2 ! t = poly_data p3 ! t"
      unfolding i2 i3 .
  qed
  have "aut False r1 p e1 rk = Inr p1 \<and> aut False r2 p1 e2 rk = Inr p2 \<and>
           aut False r3 p ((e1 * e2) mod (2 * rk)) rk = Inr p3 \<and>
           poly_data p2 = poly_data p3 \<and> poly_is_ntt p2 = poly_is_ntt p3 \<and> poly_mod p2 = poly_mod p3"
    unfolding rk using p1(1) p2(1,2,3) p3(1,2,3) data r3(2) unfolding e3_def by simp
  then show ?thesis by blast
qed

theorem aut_group_law_witness:
  "\<exists>p1 p2 p3.
     aut False (new_Polynomial 4 17) \<lparr>poly_is_ntt = False, poly_mod = 17, poly_data = [1, 2, 3, 4]\<rparr> 3 4 = Inr p1 \<and>
     aut False (new_Polynomial 4 17) p1 5 4 = Inr p2 \<and>
     aut False (new_Polynomial 4 17) \<lparr>poly_is_ntt = False, poly_mod = 17, poly_data = [1, 2, 3, 4]\<rparr> ((3 * 5) mod (2 * 4)) 4 = Inr p3 \<and>
     poly_data p2 = poly_data p3 \<and> poly_is_ntt p2 = poly_is_ntt p3 \<and> poly_mod p2 = poly_mod p3"
  using aut_group_law [of 2 4 3 5 "\<lparr>poly_is_ntt = False, poly_mod = 17, poly_data = [1, 2, 3, 4]\<rparr>"
      "new_Polynomial 4 17" "new_Polynomial 4 17" "new_Polynomial 4 17"]
  by (simp add: new_Polynomial_def getDegree_def coeffs_reduced_def)

subsection \<open>encode\<close>

text \<open>
  Claim C3 asks that every coefficient written by \<open>Client::encode\<close> is below \<open>Q\<close>, also for
  a message entry equal to 0. The code takes the branch \<open>MOD_Q - value\<close> for every entry
  that is not positive, so the entry 0 is stored as \<open>Q\<close> itself: for the message \<open>[1, 0]\<close> at
  scale \<open>2 ^ 22\<close> the last coefficient of the result is \<open>MOD_Q\<close> and the coefficient
  invariant does not hold.
\<close>

theorem encode_zero_entry_not_reduced:
  "\<exists>p. encode (new_Polynomial DEGREE MOD_Q) [1, 0] 4194304 = Inr p \<and>
       poly_mod p = MOD_Q \<and> poly_data p ! 4095 = MOD_Q \<and> \<not> coeffs_reduced p"
proof -
  let ?d = "(replicate 4096 (0::nat))[2047 := 4194304, 4095 := MOD_Q]"
  have e: "encode (new_Polynomial DEGREE MOD_Q) [1, 0] 4194304
           = Inr \<lparr>poly_is_ntt = False, poly_mod = MOD_Q, poly_data = ?d\<rparr>"
  proof -
    have l: "length [1::real, 0] = 2" by simp
    have u: "[0..<2] = [0, 1]" by (simp add: numeral_2_eq_2)
    show ?thesis
      unfolding encode_def l u
      by (simp add: encode_step_def new_Polynomial_def getDegree_def DEGREE_def
          double_to_u64_def u64_sub_def MOD_Q_def)
  qed
  have n: "?d ! 4095 = MOD_Q" by simp
  have "\<not> list_all (\<lambda>c. c < MOD_Q) ?d"
    unfolding list_all_length using n by (auto intro: exI [of _ 4095])
  then show ?thesis using e n by (simp add: coeffs_reduced_def)
qed

subsection \<open>The stored payloads in every state the server reaches\<close>

text \<open>
  \<open>handleInsert\<close> appends one payload of \<open>PIR_PAYLOAD_SIZE\<close> bytes per item it stores and adds
  to \<open>db_size\<close> only after the loop, so \<open>payloads_inv\<close> holds for every collection of every
  state the server reaches, whichever way a request ends.
\<close>

lemma readBytes_length: "readBytes len r = Some (bs, r') \<Longrightarrow> length bs = len"
  by (auto simp: readBytes_def split: if_splits)

lemma store_item_payloads:
  assumes "store_item c i k payload ctx = (e, ctx')"
  shows "payloads ctx' = payloads ctx @ [payload] \<and> db_size ctx' = db_size ctx"
  using assms
  by (auto simp: store_item_def Let_def split: if_splits prod.splits option.splits)

lemma insert_item_payloads:
  assumes "insert_item c i r ctx = (f, ctx')"
    and "list_all (\<lambda>p. length p = PIR_PAYLOAD_SIZE) (payloads ctx)"
  shows "db_size ctx' = db_size ctx \<and>
         list_all (\<lambda>p. length p = PIR_PAYLOAD_SIZE) (payloads ctx') \<and>
         length (payloads ctx) \<le> length (payloads ctx') \<and>
         (\<forall>r'. f = Next r' \<longrightarrow> length (payloads ctx') = Suc (length (payloads ctx)))"
proof (cases "read_many (read_poly False MOD_Q (rank ctx)) (stack ctx) r")
  case None
  then show ?thesis using assms by (auto simp: insert_item_def)
next
  case (Some a)
  obtain a_polys r1 where a: "a = (a_polys, r1)" by (cases a)
  show ?thesis
  proof (cases "read_poly False MOD_Q (rank ctx) r1")
    case None
    then show ?thesis using assms Some a by (auto simp: insert_item_def)
  next
    case b: (Some bb)
    obtain b r2 where bb: "bb = (b, r2)" by (cases bb)
    show ?thesis
    proof (cases "readBytes PIR_PAYLOAD_SIZE r2")
      case None
      then show ?thesis using assms Some a b bb by (auto simp: insert_item_def)
    next
      case p: (Some pp)
      obtain payload r3 where pp: "pp = (payload, r3)" by (cases pp)
      have len: "length payload = PIR_PAYLOAD_SIZE"
        using readBytes_length [of PIR_PAYLOAD_SIZE r2 payload r3] p pp by simp
      obtain e ctx1 where
        st: "store_item c i \<lparr>mlwe_rank = rank ctx, mlwe_polys = a_polys @ [b]\<rparr> payload ctx = (e, ctx1)"
        by (cases "store_item c i \<lparr>mlwe_rank = rank ctx, mlwe_polys = a_polys @ [b]\<rparr> payload ctx")
      have c1: "ctx' = ctx1"
        using assms(1) Some a b bb p pp st by (simp add: insert_item_def split: option.splits)
      from store_item_payloads [OF st] show ?thesis
        using c1 len assms(2) by simp
    qed
  qed
qed

lemma insert_loop_payloads:
  assumes "insert_loop c n i r ctx = (f, ctx')"
    and "list_all (\<lambda>p. length p = PIR_PAYLOAD_SIZE) (payloads ctx)"
  shows "db_size ctx' = db_size ctx \<and>
         list_all (\<lambda>p. length p = PIR_PAYLOAD_SIZE) (payloads ctx') \<and>
         length (payloads ctx) \<le> length (payloads ctx') \<and>
         (\<forall>r'. f = Next r' \<longrightarrow> length (payloads ctx') = length (payloads ctx) + n)"
  using assms
proof (induction n arbitrary: i r ctx)
  case 0
  then show ?case by simp
next
  case (Suc n)
  obtain g ctx1 where it: "insert_item c i r ctx = (g, ctx1)"
    by (cases "insert_item c i r ctx")
  note one = insert_item_payloads [OF it Suc.prems(2)]
  show ?case
  proof (cases g)
    case (Next r1)
    then have rest: "insert_loop c n (Suc i) r1 ctx1 = (f, ctx')"
      using Suc.prems(1) it by simp
    from one have l1: "list_all (\<lambda>p. length p = PIR_PAYLOAD_SIZE) (payloads ctx1)" by simp
    from Suc.IH [OF rest l1] one Next show ?thesis by simp
  next
    case (Return resp)
    then have "f = Return resp" "ctx' = ctx1" using Suc.prems(1) it by simp_all
    then show ?thesis using one by simp
  next
    case (Throw e)
    then have "f = Throw e" "ctx' = ctx1" using Suc.prems(1) it by simp_all
    then show ?thesis using one by simp
  qed
qed

lemma cache_partial_block_payloads:
  assumes "cache_partial_block c ctx = (e, ctx')"
  shows "payloads ctx' = payloads ctx \<and> db_size ctx' = db_size ctx"
  using assms by (auto simp: cache_partial_block_def Let_def split: if_splits prod.splits)

lemma server_inv_put:
  assumes "server_inv s" and "payloads_inv ctx"
  shows "server_inv (put_collection h ctx s)"
  using assms by (simp add: server_inv_def put_collection_def)

lemma new_CollectionData_payloads_inv: "payloads_inv (new_CollectionData d mt rlk apk apmk piak)"
  by (simp add: payloads_inv_def new_CollectionData_def)

lemma handleSetup_server_inv:
  assumes "server_inv s"
  shows "server_inv (snd (handleSetup body s))"
  using assms server_inv_put [OF assms new_CollectionData_payloads_inv]
  by (auto simp: handleSetup_def Let_def split: option.splits)

lemma handleInsert_server_inv:
  assumes "server_inv s"
  shows "server_inv (snd (handleInsert c body s))"
proof (cases "read_u64 (new_BinaryReader body)")
  case None
  then show ?thesis using assms by (simp add: handleInsert_def)
next
  case (Some a)
  obtain collectionHash r1 where a: "a = (collectionHash, r1)" by (cases a)
  show ?thesis
  proof (cases "read_u64 r1")
    case None
    then show ?thesis using assms Some a by (simp add: handleInsert_def)
  next
    case n: (Some nn)
    obtain num_to_insert r2 where nn: "nn = (num_to_insert, r2)" by (cases nn)
    show ?thesis
    proof (cases "collections s collectionHash")
      case None
      then show ?thesis using assms Some a n nn by (simp add: handleInsert_def)
    next
      case cx: (Some ctx)
      have inv: "payloads_inv ctx" using assms cx by (simp add: server_inv_def)
      then have l0: "list_all (\<lambda>p. length p = PIR_PAYLOAD_SIZE) (payloads ctx)"
        by (simp add: payloads_inv_def)
      obtain f ctx1 where lp: "insert_loop c num_to_insert 0 r2 ctx = (f, ctx1)"
        by (cases "insert_loop c num_to_insert 0 r2 ctx")
      note L = insert_loop_payloads [OF lp l0]
      have inv1: "payloads_inv ctx1" using L inv by (simp add: payloads_inv_def)
      show ?thesis
      proof (cases f)
        case (Return resp)
        then have "snd (handleInsert c body s) = put_collection collectionHash ctx1 s"
          using Some a n nn cx lp by (simp add: handleInsert_def)
        then show ?thesis using server_inv_put [OF assms inv1] by simp
      next
        case (Throw e)
        then have "snd (handleInsert c body s) = put_collection collectionHash ctx1 s"
          using Some a n nn cx lp by (simp add: handleInsert_def)
        then show ?thesis using server_inv_put [OF assms inv1] by simp
      next
        case (Next r3)
        obtain e ctx2 where cp: "cache_partial_block c ctx1 = (e, ctx2)"
          by (cases "cache_partial_block c ctx1")
        note P = cache_partial_block_payloads [OF cp]
        have inv2: "payloads_inv ctx2" using P inv1 by (simp add: payloads_inv_def)
        show ?thesis
        proof (cases e)
          case (Some ex)
          then have "snd (handleInsert c body s) = put_collection collectionHash ctx2 s"
            using \<open>read_u64 (new_BinaryReader body) = Some a\<close> a n nn cx lp Next cp
            by (simp add: handleInsert_def)
          then show ?thesis using server_inv_put [OF assms inv2] by simp
        next
          case None
          let ?ctx3 = "ctx2\<lparr>db_size := u64_add (db_size ctx2) num_to_insert\<rparr>"
          have st: "snd (handleInsert c body s) = put_collection collectionHash ?ctx3 s"
            using \<open>read_u64 (new_BinaryReader body) = Some a\<close> a n nn cx lp Next cp None
            by (simp add: handleInsert_def)
          have "u64_add (db_size ctx2) num_to_insert \<le> db_size ctx2 + num_to_insert"
            by (simp add: u64_add_def)
          also have "\<dots> \<le> length (payloads ctx) + num_to_insert"
            using P L inv by (simp add: payloads_inv_def)
          also have "\<dots> = length (payloads ctx2)" using P L Next by simp
          finally have "payloads_inv ?ctx3" using inv2 by (simp add: payloads_inv_def)
          then show ?thesis using st server_inv_put [OF assms] by simp
        qed
      qed
    qed
  qed
qed

lemma handleQuery_state: "snd (handleQuery c body isEncrypted s) = s"
  by (simp add: handleQuery_def split: option.splits sum.splits)

lemma handleRetrieve_state: "snd (handleRetrieve c body s) = s"
  by (simp add: handleRetrieve_def Let_def split: option.splits flow.splits)

lemma handlePirRetrieve_state: "snd (handlePirRetrieve c body s) = s"
  by (simp add: handlePirRetrieve_def Let_def split: option.splits sum.splits)

lemma dispatchRequest_state:
  "snd (dispatchRequest c target body s) \<in>
     {s, snd (handleSetup body s), snd (handleInsert c body s)}"
proof -
  have plain: "snd (case h of (Inl e, s') \<Rightarrow> (Inl e, s')
                    | (Inr resp, s') \<Rightarrow> (Inr \<lparr>response = resp, should_close = False\<rparr>, s')) = snd h"
    for h :: handled
    by (cases h) (simp split: sum.splits)
  have d: "snd (dispatchRequest c target body s) = snd (processRequest c target body s)"
    by (simp add: dispatchRequest_def split: prod.splits sum.splits)
  show ?thesis
    unfolding d processRequest_def Let_def
    by (simp add: plain handleQuery_state handleRetrieve_state handlePirRetrieve_state)
qed

lemma dispatchRequest_server_inv:
  assumes "server_inv s"
  shows "server_inv (snd (dispatchRequest c target body s))"
  using dispatchRequest_state [of c target body s] assms
    handleSetup_server_inv [OF assms, of body] handleInsert_server_inv [OF assms, of c body]
  by auto

lemma reachable_server_inv: "reachable c s \<Longrightarrow> server_inv s"
proof (induction rule: reachable.induct)
  case start
  show ?case by (simp add: server_inv_def)
next
  case (post s target body)
  then show ?case by (simp add: dispatchRequest_server_inv)
next
  case (delete s h)
  then show ?case by (simp add: server_inv_def)
qed

lemma reachable_payloads_inv:
  assumes "reachable c s" and "collections s h = Some ctx"
  shows "payloads_inv ctx"
  using reachable_server_inv [OF assms(1)] assms(2) by (simp add: server_inv_def)

subsection \<open>handleSetup on an existing collection\<close>

lemma le_u64_example: "le_u64 [7, 0, 0, 0, 0, 0, 0, 0] = 7" "le_u64 [8, 0, 0, 0, 0, 0, 0, 0] = 8"
  "le_u64 [16, 0, 0, 0, 0, 0, 0, 0] = 16"
  by (simp_all add: le_u64_def)

text \<open>
  Claim C2. A setup request whose header is read and that names an existing collection leaves
  the server state, hence every field of the stored collection record, as it was. The
  response is status 0 followed by the stored dimension, metric and current \<open>db_size\<close> when
  the requested dimension equals the stored one, and status 2 (followed by the same three
  stored values) when it differs.
\<close>

theorem handleSetup_existing_collection:
  assumes "read_u64 (new_BinaryReader body) = Some (collectionHash, r1)"
    and "read_u64 r1 = Some (d, r2)"
    and "read_u8 r2 = Some (mt, r3)"
    and "read_u8 r3 = Some (has_keys, r4)"
    and "collections s collectionHash = Some ctx"
  shows "handleSetup body s =
           (Inr (BinaryResponse (setup_body (if dimension ctx = d then 0 else 2)
                   (dimension ctx) (metric_type ctx) (db_size ctx))), s)"
  using assms by (simp add: handleSetup_def)

theorem handleSetup_existing_collection_witness:
  "handleSetup ([7, 0, 0, 0, 0, 0, 0, 0] @ [8, 0, 0, 0, 0, 0, 0, 0] @ [2, 0])
       \<lparr>collections = Map.empty(7 \<mapsto> example_collection 8)\<rparr>
     = (Inr (BinaryResponse ([0] @ u64_bytes 8 @ [2] @ u64_bytes 0)),
        \<lparr>collections = Map.empty(7 \<mapsto> example_collection 8)\<rparr>)
   \<and> handleSetup ([7, 0, 0, 0, 0, 0, 0, 0] @ [16, 0, 0, 0, 0, 0, 0, 0] @ [2, 0])
       \<lparr>collections = Map.empty(7 \<mapsto> example_collection 8)\<rparr>
     = (Inr (BinaryResponse ([2] @ u64_bytes 8 @ [2] @ u64_bytes 0)),
        \<lparr>collections = Map.empty(7 \<mapsto> example_collection 8)\<rparr>)"
proof -
  let ?s = "\<lparr>collections = Map.empty(7 \<mapsto> example_collection 8)\<rparr>"
  let ?b1 = "[7, 0, 0, 0, 0, 0, 0, 0] @ [8, 0, 0, 0, 0, 0, 0, 0] @ [2, 0::byte]"
  let ?b2 = "[7, 0, 0, 0, 0, 0, 0, 0] @ [16, 0, 0, 0, 0, 0, 0, 0] @ [2, 0::byte]"
  have c: "collections ?s 7 = Some (example_collection 8)" by simp
  have f: "dimension (example_collection 8) = 8" "metric_type (example_collection 8) = 2"
    "db_size (example_collection 8) = 0"
    by (simp_all add: example_collection_def new_CollectionData_def)
  have a: "read_u64 (new_BinaryReader ?b1) = Some (7, \<lparr>buffer = ?b1, pos = 8\<rparr>)"
       "read_u64 \<lparr>buffer = ?b1, pos = 8\<rparr> = Some (8, \<lparr>buffer = ?b1, pos = 16\<rparr>)"
       "read_u8 \<lparr>buffer = ?b1, pos = 16\<rparr> = Some (2, \<lparr>buffer = ?b1, pos = 17\<rparr>)"
       "read_u8 \<lparr>buffer = ?b1, pos = 17\<rparr> = Some (0, \<lparr>buffer = ?b1, pos = 18\<rparr>)"
    by (simp_all add: read_u64_def read_u8_def readBytes_def new_BinaryReader_def le_u64_def)
  have b: "read_u64 (new_BinaryReader ?b2) = Some (7, \<lparr>buffer = ?b2, pos = 8\<rparr>)"
       "read_u64 \<lparr>buffer = ?b2, pos = 8\<rparr> = Some (16, \<lparr>buffer = ?b2, pos = 16\<rparr>)"
       "read_u8 \<lparr>buffer = ?b2, pos = 16\<rparr> = Some (2, \<lparr>buffer = ?b2, pos = 17\<rparr>)"
       "read_u8 \<lparr>buffer = ?b2, pos = 17\<rparr> = Some (0, \<lparr>buffer = ?b2, pos = 18\<rparr>)"
    by (simp_all add: read_u64_def read_u8_def readBytes_def new_BinaryReader_def le_u64_def)
  show ?thesis
    using handleSetup_existing_collection [OF a c] handleSetup_existing_collection [OF b c]
    by (simp add: f setup_body_def)
qed

subsection \<open>handleQuery on an empty collection\<close>

text \<open>
  Claim C10. A query request, on the encrypted or on the plaintext path, that names an
  existing collection with \<open>db_size = 0\<close> is answered with the bad-request response
  "Collection is empty", whatever follows the collection hash in the body (nothing of it is
  read); no ciphertext is returned and the server state is unchanged.
\<close>

theorem handleQuery_empty_collection:
  assumes "read_u64 (new_BinaryReader body) = Some (collectionHash, r1)"
    and "collections s collectionHash = Some ctx"
    and "db_size ctx = 0"
  shows "handleQuery c body isEncrypted s = (Inr (TextResponse bad_request ''Collection is empty''), s)"
  using assms by (simp add: handleQuery_def)

theorem handleQuery_empty_collection_witness:
  "handleQuery example_engine [7, 0, 0, 0, 0, 0, 0, 0] True \<lparr>collections = Map.empty(7 \<mapsto> example_collection 8)\<rparr>
     = (Inr (TextResponse bad_request ''Collection is empty''),
        \<lparr>collections = Map.empty(7 \<mapsto> example_collection 8)\<rparr>)
   \<and> handleQuery example_engine [7, 0, 0, 0, 0, 0, 0, 0] False \<lparr>collections = Map.empty(7 \<mapsto> example_collection 8)\<rparr>
     = (Inr (TextResponse bad_request ''Collection is empty''),
        \<lparr>collections = Map.empty(7 \<mapsto> example_collection 8)\<rparr>)"
proof -
  let ?s = "\<lparr>collections = Map.empty(7 \<mapsto> example_collection 8)\<rparr>"
  let ?b = "[7, 0, 0, 0, 0, 0, 0, 0::byte]"
  have a: "read_u64 (new_BinaryReader ?b) = Some (7, \<lparr>buffer = ?b, pos = 8\<rparr>)"
    by (simp add: read_u64_def readBytes_def new_BinaryReader_def le_u64_def)
  have c: "collections ?s 7 = Some (example_collection 8)" by simp
  have z: "db_size (example_collection 8) = 0"
    by (simp add: example_collection_def new_CollectionData_def)
  show ?thesis
    using handleQuery_empty_collection [OF a c z, of example_engine True]
          handleQuery_empty_collection [OF a c z, of example_engine False]
    by simp
qed

subsection \<open>handleRetrieve and indices outside the database\<close>

lemma retrieve_loop_all:
  assumes "read_many read_u64 n r = Some (idxs, r')"
    and "payloads_inv ctx"
  shows "retrieve_loop n r ctx out =
           Next (out @ concat (map (\<lambda>index. if index < db_size ctx then payloads ctx ! index
                                             else replicate PIR_PAYLOAD_SIZE 0) idxs))"
  using assms(1)
proof (induction n arbitrary: r idxs out)
  case 0
  then show ?case by simp
next
  case (Suc n)
  from Suc.prems obtain index r1 rest where
    h: "read_u64 r = Some (index, r1)" and t: "read_many read_u64 n r1 = Some (rest, r')"
    and i: "idxs = index # rest"
    by (auto split: option.splits)
  show ?case
  proof (cases "index < db_size ctx")
    case True
    then have lt: "index < length (payloads ctx)" using assms(2) by (simp add: payloads_inv_def)
    then have len: "length (payloads ctx ! index) = PIR_PAYLOAD_SIZE"
      using assms(2) by (simp add: payloads_inv_def list_all_length)
    show ?thesis
      using True lt len h i Suc.IH [OF t] by simp
  next
    case False
    then show ?thesis using h i Suc.IH [OF t] by simp
  qed
qed

lemma PIR_PAYLOAD_SIZE_value: "PIR_PAYLOAD_SIZE = 1024"
  by (simp add: PIR_PAYLOAD_SIZE_def PIR_PER_COEFF_BITS_def DEGREE_def)

text \<open>
  The reservation for the response body succeeds when the product of the number of indices
  and \<open>PIR_PAYLOAD_SIZE\<close> is within \<open>max_size()\<close> and the allocator grants it.
\<close>

lemma vector_reserve_granted:
  assumes "n * PIR_PAYLOAD_SIZE \<le> vector_max_size"
    and "allocate c (n * PIR_PAYLOAD_SIZE)"
  shows "vector_reserve c (u64_mul n PIR_PAYLOAD_SIZE) = None"
proof -
  have "n * PIR_PAYLOAD_SIZE < 2 ^ 64"
    using assms(1) by (simp add: vector_max_size_def)
  then have "u64_mul n PIR_PAYLOAD_SIZE = n * PIR_PAYLOAD_SIZE"
    by (simp add: u64_mul_def)
  then show ?thesis using assms by (simp add: vector_reserve_def)
qed

lemma retrieve_example_reads:
  fixes b :: "byte list"
  defines "b \<equiv> [7, 0, 0, 0, 0, 0, 0, 0] @ [1, 0, 0, 0, 0, 0, 0, 0] @ [0, 0, 0, 0, 0, 0, 0, 0]"
  shows "read_u64 (new_BinaryReader b) = Some (7, \<lparr>buffer = b, pos = 8\<rparr>)"
    and "read_u64 \<lparr>buffer = b, pos = 8\<rparr> = Some (1, \<lparr>buffer = b, pos = 16\<rparr>)"
    and "read_many read_u64 1 \<lparr>buffer = b, pos = 16\<rparr> = Some ([0], \<lparr>buffer = b, pos = 24\<rparr>)"
  by (simp_all add: b_def read_u64_def readBytes_def new_BinaryReader_def le_u64_def)

lemma example_engine_reserve:
  "n < 2 ^ 20 \<Longrightarrow> vector_reserve example_engine (u64_mul n PIR_PAYLOAD_SIZE) = None"
proof (rule vector_reserve_granted)
  assume "n < 2 ^ 20"
  then have "n * PIR_PAYLOAD_SIZE < 2 ^ 30" by (simp add: PIR_PAYLOAD_SIZE_value)
  then show "n * PIR_PAYLOAD_SIZE \<le> vector_max_size" "allocate example_engine (n * PIR_PAYLOAD_SIZE)"
    by (simp_all add: vector_max_size_def example_engine_def)
qed

text \<open>
  Claim C4 says that a direct retrieve request with an index that is not below \<open>db_size\<close> is
  answered with an error. The code answers it with status 200 and a block of zero bytes: on
  the freshly set up collection 7 (\<open>db_size = 0\<close>) the request for the single index 0 gets
  the binary response of \<open>PIR_PAYLOAD_SIZE\<close> zero bytes.
\<close>

theorem handleRetrieve_out_of_range_counterexample:
  "dispatchRequest example_engine ''/collections/retrieve''
       ([7, 0, 0, 0, 0, 0, 0, 0] @ [1, 0, 0, 0, 0, 0, 0, 0] @ [0, 0, 0, 0, 0, 0, 0, 0])
       \<lparr>collections = Map.empty(7 \<mapsto> example_collection 8)\<rparr>
     = (\<lparr>response = BinaryResponse (replicate PIR_PAYLOAD_SIZE 0), should_close = False\<rparr>,
        \<lparr>collections = Map.empty(7 \<mapsto> example_collection 8)\<rparr>)
   \<and> db_size (example_collection 8) = 0"
proof -
  let ?s = "\<lparr>collections = Map.empty(7 \<mapsto> example_collection 8)\<rparr>"
  let ?b = "[7, 0, 0, 0, 0, 0, 0, 0] @ [1, 0, 0, 0, 0, 0, 0, 0] @ [0, 0, 0, 0, 0, 0, 0, 0::byte]"
  have z: "db_size (example_collection 8) = 0"
    by (simp add: example_collection_def new_CollectionData_def)
  have l: "retrieve_loop 1 \<lparr>buffer = ?b, pos = 16\<rparr> (example_collection 8) [] = Next (replicate PIR_PAYLOAD_SIZE 0)"
    using retrieve_example_reads(3) by (simp add: z split: option.splits)
  have v: "vector_reserve example_engine (u64_mul 1 PIR_PAYLOAD_SIZE) = None"
    by (rule example_engine_reserve) simp
  have "handleRetrieve example_engine ?b ?s = (Inr (BinaryResponse (replicate PIR_PAYLOAD_SIZE 0)), ?s)"
    unfolding handleRetrieve_def Let_def using retrieve_example_reads(1,2) l v by simp
  then show ?thesis
    by (simp add: dispatchRequest_def processRequest_def z)
qed

text \<open>
  Claim C4, amended. Take a retrieve request whose header and indices are all read, on an
  existing collection that holds a payload of \<open>PIR_PAYLOAD_SIZE\<close> bytes for every index below
  \<open>db_size\<close> (\<open>payloads_inv\<close>, which holds in every state the server reaches), and let the
  reservation of \<open>num_indices * PIR_PAYLOAD_SIZE\<close> bytes for the response succeed: the
  product is within \<open>max_size()\<close> and the allocator grants it. Then the response is the
  binary response made of one block per requested index, in order: the stored payload for an
  index below \<open>db_size\<close>, and \<open>PIR_PAYLOAD_SIZE\<close> zero bytes for every other index. The
  server state is unchanged.
\<close>

theorem handleRetrieve_out_of_range_zero_block:
  assumes "read_u64 (new_BinaryReader body) = Some (collectionHash, r1)"
    and "read_u64 r1 = Some (num_indices, r2)"
    and "read_many read_u64 num_indices r2 = Some (idxs, r3)"
    and "collections s collectionHash = Some ctx"
    and "num_indices * PIR_PAYLOAD_SIZE \<le> vector_max_size"
    and "allocate c (num_indices * PIR_PAYLOAD_SIZE)"
    and "payloads_inv ctx"
  shows "handleRetrieve c body s =
           (Inr (BinaryResponse (concat (map (\<lambda>index. if index < db_size ctx then payloads ctx ! index
                                             else replicate PIR_PAYLOAD_SIZE 0) idxs))), s)"
  using assms(1,2,4) retrieve_loop_all [OF assms(3,7), of "[]"] vector_reserve_granted [OF assms(5,6)]
  by (simp add: handleRetrieve_def)

theorem handleRetrieve_out_of_range_zero_block_witness:
  "handleRetrieve example_engine
       ([7, 0, 0, 0, 0, 0, 0, 0] @ [2, 0, 0, 0, 0, 0, 0, 0] @ [0, 0, 0, 0, 0, 0, 0, 0]
          @ [3, 0, 0, 0, 0, 0, 0, 0])
       \<lparr>collections = Map.empty(7 \<mapsto>
          (example_collection 8)\<lparr>payloads := [replicate PIR_PAYLOAD_SIZE 9], db_size := 1\<rparr>)\<rparr>
     = (Inr (BinaryResponse (replicate PIR_PAYLOAD_SIZE 9 @ replicate PIR_PAYLOAD_SIZE 0)),
        \<lparr>collections = Map.empty(7 \<mapsto>
          (example_collection 8)\<lparr>payloads := [replicate PIR_PAYLOAD_SIZE 9], db_size := 1\<rparr>)\<rparr>)"
proof -
  let ?ctx = "(example_collection 8)\<lparr>payloads := [replicate PIR_PAYLOAD_SIZE 9], db_size := 1\<rparr>"
  let ?s = "\<lparr>collections = Map.empty(7 \<mapsto> ?ctx)\<rparr>"
  let ?b = "[7, 0, 0, 0, 0, 0, 0, 0] @ [2, 0, 0, 0, 0, 0, 0, 0] @ [0, 0, 0, 0, 0, 0, 0, 0]
              @ [3, 0, 0, 0, 0, 0, 0, 0 :: byte]"
  have r1: "read_u64 (new_BinaryReader ?b) = Some (7, \<lparr>buffer = ?b, pos = 8\<rparr>)"
    and r2: "read_u64 \<lparr>buffer = ?b, pos = 8\<rparr> = Some (2, \<lparr>buffer = ?b, pos = 16\<rparr>)"
    by (simp_all add: read_u64_def readBytes_def new_BinaryReader_def le_u64_def)
  have two: "(2 :: nat) = Suc (Suc 0)" by simp
  have r3: "read_many read_u64 2 \<lparr>buffer = ?b, pos = 16\<rparr> = Some ([0, 3], \<lparr>buffer = ?b, pos = 32\<rparr>)"
    by (subst two) (simp add: read_u64_def readBytes_def le_u64_def)
  have c: "collections ?s 7 = Some ?ctx" by simp
  have m: "2 * PIR_PAYLOAD_SIZE \<le> vector_max_size"
    by (simp add: PIR_PAYLOAD_SIZE_value vector_max_size_def)
  have g: "allocate example_engine (2 * PIR_PAYLOAD_SIZE)"
    by (simp add: example_engine_def PIR_PAYLOAD_SIZE_value)
  have p: "payloads_inv ?ctx"
    by (simp add: payloads_inv_def)
  show ?thesis
    using handleRetrieve_out_of_range_zero_block [OF r1 r2 r3 c m g p]
    by simp
qed

text \<open>
  In a state the server has reached, the condition on the stored payloads holds by itself.
\<close>

lemma handleRetrieve_reachable:
  assumes "reachable c s"
    and "read_u64 (new_BinaryReader body) = Some (collectionHash, r1)"
    and "read_u64 r1 = Some (num_indices, r2)"
    and "read_many read_u64 num_indices r2 = Some (idxs, r3)"
    and "collections s collectionHash = Some ctx"
    and "num_indices * PIR_PAYLOAD_SIZE \<le> vector_max_size"
    and "allocate c (num_indices * PIR_PAYLOAD_SIZE)"
  shows "handleRetrieve c body s =
           (Inr (BinaryResponse (concat (map (\<lambda>index. if index < db_size ctx then payloads ctx ! index
                                             else replicate PIR_PAYLOAD_SIZE 0) idxs))), s)"
proof -
  have "payloads_inv ctx" by (rule reachable_payloads_inv [OF assms(1,5)])
  from retrieve_loop_all [OF assms(4) this, of "[]"] vector_reserve_granted [OF assms(6,7)]
  show ?thesis using assms(2,3,5) by (simp add: handleRetrieve_def)
qed

text \<open>
  When the reservation fails, the exception leaves the handler before any index is read, and
  the request is answered with status 500 on a connection that is then closed. A request that
  announces \<open>2 ^ 53\<close> indices asks for \<open>2 ^ 63\<close> bytes, which is above \<open>max_size()\<close>.
\<close>

lemma handleRetrieve_reserve_fails:
  assumes "read_u64 (new_BinaryReader body) = Some (collectionHash, r1)"
    and "read_u64 r1 = Some (num_indices, r2)"
    and "collections s collectionHash = Some ctx"
    and "vector_reserve c (u64_mul num_indices PIR_PAYLOAD_SIZE) = Some e"
  shows "dispatchRequest c ''/collections/retrieve'' body s =
           (\<lparr>response = TextResponse internal_server_error ''Internal server error'',
             should_close = True\<rparr>, s)"
  using assms by (simp add: dispatchRequest_def processRequest_def handleRetrieve_def)

lemma handleRetrieve_huge_count:
  "dispatchRequest c ''/collections/retrieve''
       ([7, 0, 0, 0, 0, 0, 0, 0] @ [0, 0, 0, 0, 0, 0, 32, 0] @ [0, 0, 0, 0, 0, 0, 0, 0])
       \<lparr>collections = Map.empty(7 \<mapsto> example_collection 8)\<rparr>
     = (\<lparr>response = TextResponse internal_server_error ''Internal server error'',
         should_close = True\<rparr>,
        \<lparr>collections = Map.empty(7 \<mapsto> example_collection 8)\<rparr>)"
proof -
  let ?s = "\<lparr>collections = Map.empty(7 \<mapsto> example_collection 8)\<rparr>"
  let ?b = "[7, 0, 0, 0, 0, 0, 0, 0] @ [0, 0, 0, 0, 0, 0, 32, 0] @ [0, 0, 0, 0, 0, 0, 0, 0 :: byte]"
  have r1: "read_u64 (new_BinaryReader ?b) = Some (7, \<lparr>buffer = ?b, pos = 8\<rparr>)"
    and r2: "read_u64 \<lparr>buffer = ?b, pos = 8\<rparr> = Some (2 ^ 53, \<lparr>buffer = ?b, pos = 16\<rparr>)"
    by (simp_all add: read_u64_def readBytes_def new_BinaryReader_def le_u64_def)
  have c: "collections ?s 7 = Some (example_collection 8)" by simp
  have v: "vector_reserve c (u64_mul (2 ^ 53) PIR_PAYLOAD_SIZE) = Some LengthError"
    by (simp add: vector_reserve_def u64_mul_def PIR_PAYLOAD_SIZE_value vector_max_size_def)
  show ?thesis by (rule handleRetrieve_reserve_fails [OF r1 r2 c v])
qed

subsection \<open>handlePirRetrieve and the PIR capacity\<close>

lemma read_poly_zeros:
  assumes "pos r + n * 8 \<le> length (buffer r)"
  shows "read_poly ntt m n r =
           Some (\<lparr>poly_is_ntt = ntt, poly_mod = m,
                  poly_data = u64s_of_bytes (take (n * 8) (drop (pos r) (buffer r)))\<rparr>,
                 r\<lparr>pos := pos r + n * 8\<rparr>)"
  using assms by (simp add: read_poly_def readBytes_def)

text \<open>
  Claim C5 says that the PIR pipeline is invoked whenever \<open>db_size\<close> is within the PIR
  capacity. An empty collection is within capacity, and the code throws "Database is empty"
  for it before it reads the two ciphertexts: the well-formed request on the freshly set up
  collection 7 gets the 500 response, although the pipeline of \<open>example_engine\<close> never fails.
\<close>

theorem handlePirRetrieve_empty_counterexample:
  "db_size (example_collection 8) \<le> PIR_RANK * PIR_RANK \<and>
   dispatchRequest example_engine ''/collections/pir_retrieve''
       ([7, 0, 0, 0, 0, 0, 0, 0] @ replicate (4 * DEGREE * 8) 0)
       \<lparr>collections = Map.empty(7 \<mapsto> example_collection 8)\<rparr>
     = (\<lparr>response = TextResponse internal_server_error ''Internal server error'',
         should_close = True\<rparr>,
        \<lparr>collections = Map.empty(7 \<mapsto> example_collection 8)\<rparr>)"
proof -
  let ?s = "\<lparr>collections = Map.empty(7 \<mapsto> example_collection 8)\<rparr>"
  let ?b = "[7, 0, 0, 0, 0, 0, 0, 0] @ replicate (4 * DEGREE * 8) (0::byte)"
  have z: "db_size (example_collection 8) = 0"
    by (simp add: example_collection_def new_CollectionData_def)
  have a: "read_u64 (new_BinaryReader ?b) = Some (7, \<lparr>buffer = ?b, pos = 8\<rparr>)"
    by (simp add: read_u64_def readBytes_def new_BinaryReader_def le_u64_def)
  have "handlePirRetrieve example_engine ?b ?s = (Inl (RuntimeError ''Database is empty''), ?s)"
    unfolding handlePirRetrieve_def using a z by simp
  then show ?thesis
    by (simp add: dispatchRequest_def processRequest_def z)
qed

text \<open>
  Claim C5, amended. For a PIR retrieve request naming an existing collection whose
  \<open>db_size\<close> exceeds \<open>PIR_RANK * PIR_RANK\<close>, the handler throws without calling the PIR
  pipeline, the request is answered with the 500 error response and the server state is
  unchanged. For \<open>0 < db_size \<le> PIR_RANK * PIR_RANK\<close> and a body that holds the four
  polynomials of the two ciphertexts, the PIR pipeline is invoked on them with the keys and
  the encoded payloads of the collection, and its result, serialized, is the response.
\<close>

theorem handlePirRetrieve_capacity:
  "(read_u64 (new_BinaryReader body) = Some (collectionHash, r1) \<and>
    collections s collectionHash = Some ctx \<and> db_size ctx > PIR_RANK * PIR_RANK \<longrightarrow>
      handlePirRetrieve c body s = (Inl (RuntimeError ''Database size exceeds PIR capacity''), s) \<and>
      dispatchRequest c ''/collections/pir_retrieve'' body s
        = (\<lparr>response = TextResponse internal_server_error ''Internal server error'',
            should_close = True\<rparr>, s))
   \<and> (read_u64 (new_BinaryReader body) = Some (collectionHash, r1) \<and>
      collections s collectionHash = Some ctx \<and>
      0 < db_size ctx \<and> db_size ctx \<le> PIR_RANK * PIR_RANK \<and>
      read_poly False MOD_Q DEGREE r1 = Some (a1, r2) \<and>
      read_poly False MOD_Q DEGREE r2 = Some (b1, r3) \<and>
      read_poly False MOD_Q DEGREE r3 = Some (a2, r4) \<and>
      read_poly False MOD_Q DEGREE r4 = Some (b2, r5) \<longrightarrow>
      handlePirRetrieve c body s =
        (case pir c (relinKey ctx) (pirInvAutKeys ctx) \<lparr>polys = [a1, b1]\<rparr> \<lparr>polys = [a2, b2]\<rparr>
                (pir_encoded_payloads ctx) of
           Inl e \<Rightarrow> (Inl e, s)
         | Inr result \<Rightarrow>
             (case appendCiphertext [] result of Inl e \<Rightarrow> (Inl e, s)
              | Inr out \<Rightarrow> (Inr (BinaryResponse out), s))))"
proof (intro conjI impI)
  assume h: "read_u64 (new_BinaryReader body) = Some (collectionHash, r1) \<and>
    collections s collectionHash = Some ctx \<and> db_size ctx > PIR_RANK * PIR_RANK"
  then have e: "handlePirRetrieve c body s = (Inl (RuntimeError ''Database size exceeds PIR capacity''), s)"
    by (auto simp: handlePirRetrieve_def)
  show "handlePirRetrieve c body s = (Inl (RuntimeError ''Database size exceeds PIR capacity''), s)"
    by (rule e)
  show "dispatchRequest c ''/collections/pir_retrieve'' body s
        = (\<lparr>response = TextResponse internal_server_error ''Internal server error'',
            should_close = True\<rparr>, s)"
    by (simp add: dispatchRequest_def processRequest_def e)
next
  assume "read_u64 (new_BinaryReader body) = Some (collectionHash, r1) \<and>
      collections s collectionHash = Some ctx \<and>
      0 < db_size ctx \<and> db_size ctx \<le> PIR_RANK * PIR_RANK \<and>
      read_poly False MOD_Q DEGREE r1 = Some (a1, r2) \<and>
      read_poly False MOD_Q DEGREE r2 = Some (b1, r3) \<and>
      read_poly False MOD_Q DEGREE r3 = Some (a2, r4) \<and>
      read_poly False MOD_Q DEGREE r4 = Some (b2, r5)"
  then show "handlePirRetrieve c body s =
        (case pir c (relinKey ctx) (pirInvAutKeys ctx) \<lparr>polys = [a1, b1]\<rparr> \<lparr>polys = [a2, b2]\<rparr>
                (pir_encoded_payloads ctx) of
           Inl e \<Rightarrow> (Inl e, s)
         | Inr result \<Rightarrow>
             (case appendCiphertext [] result of Inl e \<Rightarrow> (Inl e, s)
              | Inr out \<Rightarrow> (Inr (BinaryResponse out), s)))"
    by (simp add: handlePirRetrieve_def)
qed

theorem handlePirRetrieve_capacity_witness:
  "dispatchRequest example_engine ''/collections/pir_retrieve'' [7, 0, 0, 0, 0, 0, 0, 0]
       \<lparr>collections = Map.empty(7 \<mapsto> (example_collection 8)\<lparr>db_size := 1048577\<rparr>)\<rparr>
     = (\<lparr>response = TextResponse internal_server_error ''Internal server error'',
         should_close = True\<rparr>,
        \<lparr>collections = Map.empty(7 \<mapsto> (example_collection 8)\<lparr>db_size := 1048577\<rparr>)\<rparr>)
   \<and> (\<exists>out. handlePirRetrieve example_engine ([7, 0, 0, 0, 0, 0, 0, 0] @ replicate (4 * DEGREE * 8) 0)
              \<lparr>collections = Map.empty(7 \<mapsto> (example_collection 8)\<lparr>db_size := 5\<rparr>)\<rparr>
            = (Inr (BinaryResponse out),
               \<lparr>collections = Map.empty(7 \<mapsto> (example_collection 8)\<lparr>db_size := 5\<rparr>)\<rparr>)
          \<and> length out = 2 * DEGREE * 8)"
proof -
  let ?c1 = "(example_collection 8)\<lparr>db_size := 1048577\<rparr>"
  let ?s1 = "\<lparr>collections = Map.empty(7 \<mapsto> ?c1)\<rparr>"
  let ?h = "[7, 0, 0, 0, 0, 0, 0, 0::byte]"
  have a1: "read_u64 (new_BinaryReader ?h) = Some (7, \<lparr>buffer = ?h, pos = 8\<rparr>)"
    by (simp add: read_u64_def readBytes_def new_BinaryReader_def le_u64_def)
  have h1: "read_u64 (new_BinaryReader ?h) = Some (7, \<lparr>buffer = ?h, pos = 8\<rparr>) \<and>
      collections ?s1 7 = Some ?c1 \<and> db_size ?c1 > PIR_RANK * PIR_RANK"
    using a1 by (simp add: PIR_RANK_def PIR_LOG_RANK_def)
  have A: "dispatchRequest example_engine ''/collections/pir_retrieve'' ?h ?s1
     = (\<lparr>response = TextResponse internal_server_error ''Internal server error'',
         should_close = True\<rparr>, ?s1)"
    using handlePirRetrieve_capacity [of ?h 7 "\<lparr>buffer = ?h, pos = 8\<rparr>" ?s1 ?c1 example_engine] h1
    by blast
  let ?c2 = "(example_collection 8)\<lparr>db_size := 5\<rparr>"
  let ?s2 = "\<lparr>collections = Map.empty(7 \<mapsto> ?c2)\<rparr>"
  let ?b = "[7, 0, 0, 0, 0, 0, 0, 0] @ replicate (4 * DEGREE * 8) (0::byte)"
  define p where "p = \<lparr>poly_is_ntt = False, poly_mod = MOD_Q,
      poly_data = u64s_of_bytes (replicate (DEGREE * 8) 0)\<rparr>"
  have a2: "read_u64 (new_BinaryReader ?b) = Some (7, \<lparr>buffer = ?b, pos = 8\<rparr>)"
    by (simp add: read_u64_def readBytes_def new_BinaryReader_def le_u64_def)
  have r: "read_poly False MOD_Q DEGREE \<lparr>buffer = ?b, pos = 8\<rparr> = Some (p, \<lparr>buffer = ?b, pos = 8 + DEGREE * 8\<rparr>)"
       "read_poly False MOD_Q DEGREE \<lparr>buffer = ?b, pos = 8 + DEGREE * 8\<rparr> = Some (p, \<lparr>buffer = ?b, pos = 8 + DEGREE * 16\<rparr>)"
       "read_poly False MOD_Q DEGREE \<lparr>buffer = ?b, pos = 8 + DEGREE * 16\<rparr> = Some (p, \<lparr>buffer = ?b, pos = 8 + DEGREE * 24\<rparr>)"
       "read_poly False MOD_Q DEGREE \<lparr>buffer = ?b, pos = 8 + DEGREE * 24\<rparr> = Some (p, \<lparr>buffer = ?b, pos = 8 + DEGREE * 32\<rparr>)"
    by (simp_all add: read_poly_zeros p_def DEGREE_def)
  have h2: "read_u64 (new_BinaryReader ?b) = Some (7, \<lparr>buffer = ?b, pos = 8\<rparr>) \<and>
      collections ?s2 7 = Some ?c2 \<and> 0 < db_size ?c2 \<and> db_size ?c2 \<le> PIR_RANK * PIR_RANK \<and>
      read_poly False MOD_Q DEGREE \<lparr>buffer = ?b, pos = 8\<rparr> = Some (p, \<lparr>buffer = ?b, pos = 8 + DEGREE * 8\<rparr>) \<and>
      read_poly False MOD_Q DEGREE \<lparr>buffer = ?b, pos = 8 + DEGREE * 8\<rparr> = Some (p, \<lparr>buffer = ?b, pos = 8 + DEGREE * 16\<rparr>) \<and>
      read_poly False MOD_Q DEGREE \<lparr>buffer = ?b, pos = 8 + DEGREE * 16\<rparr> = Some (p, \<lparr>buffer = ?b, pos = 8 + DEGREE * 24\<rparr>) \<and>
      read_poly False MOD_Q DEGREE \<lparr>buffer = ?b, pos = 8 + DEGREE * 24\<rparr> = Some (p, \<lparr>buffer = ?b, pos = 8 + DEGREE * 32\<rparr>)"
    using a2 r by (simp add: PIR_RANK_def PIR_LOG_RANK_def)
  have ap: "appendCiphertext [] (new_Ciphertext False) =
        Inr (concat (map u64_bytes (replicate DEGREE 0)) @ concat (map u64_bytes (replicate DEGREE 0)))"
    by (simp add: appendCiphertext_def appendPoly_def new_Ciphertext_def new_Polynomial_def
        getA_def getB_def getDegree_def)
  have len: "length (concat (map u64_bytes (replicate DEGREE 0))) = DEGREE * 8"
    by (simp add: length_concat u64_bytes_def sum_list_replicate o_def)
  have B: "handlePirRetrieve example_engine ?b ?s2
            = (Inr (BinaryResponse (concat (map u64_bytes (replicate DEGREE 0))
                      @ concat (map u64_bytes (replicate DEGREE 0)))), ?s2)"
    using handlePirRetrieve_capacity [of ?b 7 "\<lparr>buffer = ?b, pos = 8\<rparr>" ?s2 ?c2 example_engine
        p "\<lparr>buffer = ?b, pos = 8 + DEGREE * 8\<rparr>" p "\<lparr>buffer = ?b, pos = 8 + DEGREE * 16\<rparr>"
        p "\<lparr>buffer = ?b, pos = 8 + DEGREE * 24\<rparr>" p "\<lparr>buffer = ?b, pos = 8 + DEGREE * 32\<rparr>"] h2
    by (simp add: example_engine_def ap)
  show ?thesis using A B len by simp
qed

subsection \<open>handleInsert, handleQuery and the block caches\<close>

lemma readBytes_Some:
  "readBytes len r = Some (bs, r') \<Longrightarrow>
     buffer r' = buffer r \<and> pos r' = pos r + len \<and> pos r' \<le> length (buffer r) \<and> length bs = len"
  by (auto simp: readBytes_def split: if_splits)

lemma readBytes_enough:
  "pos r + len \<le> length (buffer r) \<Longrightarrow> \<exists>bs. readBytes len r = Some (bs, r\<lparr>pos := pos r + len\<rparr>)"
  by (simp add: readBytes_def)

lemma readBytes_short:
  "pos r + len > length (buffer r) \<Longrightarrow> readBytes len r = None"
  by (simp add: readBytes_def)

lemma read_poly_Some:
  "read_poly ntt m n r = Some (p, r') \<Longrightarrow>
     buffer r' = buffer r \<and> pos r' = pos r + n * 8 \<and> pos r' \<le> length (buffer r)"
  by (auto simp: read_poly_def dest: readBytes_Some split: option.splits)

lemma read_poly_enough:
  "pos r + n * 8 \<le> length (buffer r) \<Longrightarrow> \<exists>p. read_poly ntt m n r = Some (p, r\<lparr>pos := pos r + n * 8\<rparr>)"
  by (simp add: read_poly_def readBytes_def)

lemma read_poly_short:
  "pos r + n * 8 > length (buffer r) \<Longrightarrow> read_poly ntt m n r = None"
  by (simp add: read_poly_def readBytes_def)

lemma read_many_poly_Some:
  "read_many (read_poly ntt m n) k r = Some (ps, r') \<Longrightarrow>
     buffer r' = buffer r \<and> pos r' = pos r + k * (n * 8)"
proof (induction k arbitrary: r ps)
  case 0
  then show ?case by simp
next
  case (Suc k)
  from Suc.prems obtain p r1 ps1 where
    a: "read_poly ntt m n r = Some (p, r1)" and b: "read_many (read_poly ntt m n) k r1 = Some (ps1, r')"
    by (auto split: option.splits)
  from read_poly_Some [OF a] Suc.IH [OF b] show ?case by simp
qed

lemma read_many_poly_enough:
  "pos r + k * (n * 8) \<le> length (buffer r) \<Longrightarrow>
     \<exists>ps. read_many (read_poly ntt m n) k r = Some (ps, r\<lparr>pos := pos r + k * (n * 8)\<rparr>)"
proof (induction k arbitrary: r)
  case 0
  then show ?case by simp
next
  case (Suc k)
  have e: "pos r + n * 8 \<le> length (buffer r)" using Suc.prems by simp
  from read_poly_enough [OF e] obtain p where
    p: "read_poly ntt m n r = Some (p, r\<lparr>pos := pos r + n * 8\<rparr>)" by blast
  let ?r1 = "r\<lparr>pos := pos r + n * 8\<rparr>"
  have "pos ?r1 + k * (n * 8) \<le> length (buffer ?r1)" using Suc.prems by simp
  from Suc.IH [OF this] obtain ps where
    "read_many (read_poly ntt m n) k ?r1 = Some (ps, ?r1\<lparr>pos := pos ?r1 + k * (n * 8)\<rparr>)" by blast
  then show ?case using p by (simp add: add.assoc)
qed

lemma read_many_poly_short:
  "pos r + k * (n * 8) > length (buffer r) \<Longrightarrow> pos r \<le> length (buffer r) \<Longrightarrow>
     read_many (read_poly ntt m n) k r = None"
proof (induction k arbitrary: r)
  case 0
  then show ?case by simp
next
  case (Suc k)
  show ?case
  proof (cases "read_poly ntt m n r")
    case None
    then show ?thesis by simp
  next
    case (Some a)
    then obtain p r1 where a: "read_poly ntt m n r = Some (p, r1)" by (cases a) auto
    from read_poly_Some [OF a] have r1: "buffer r1 = buffer r" "pos r1 = pos r + n * 8" "pos r1 \<le> length (buffer r)"
      by simp_all
    have "pos r1 + k * (n * 8) > length (buffer r1)" using Suc.prems(1) r1 by simp
    moreover have "pos r1 \<le> length (buffer r1)" using r1 by simp
    ultimately have "read_many (read_poly ntt m n) k r1 = None" by (rule Suc.IH)
    then show ?thesis using a by simp
  qed
qed

lemma store_item_None:
  assumes "store_item c i new_key payload ctx = (None, ctx')"
  shows "item_stored ctx ctx' \<and> u64_add (db_size ctx) i < length (pir_encoded_payloads ctx)"
  using assms unfolding store_item_def item_stored_def Let_def
  by (auto split: if_splits prod.splits option.splits)

lemma store_item_enough:
  assumes slot: "u64_add (db_size ctx) i < length (pir_encoded_payloads ctx)"
    and noex: "\<And>x res keys. snd (cacheKeys c x res keys) = None"
  shows "\<exists>ctx'. store_item c i new_key payload ctx = (None, ctx')"
proof -
  have n: "\<And>x res keys a e. cacheKeys c x res keys \<noteq> (a, Some e)"
    using noex by (metis option.distinct(1) snd_conv)
  show ?thesis
    unfolding store_item_def Let_def using slot
    by (auto split: prod.splits option.splits simp: n)
qed

lemma insert_item_Next:
  assumes "insert_item c i r ctx = (Next r', ctx')"
  shows "item_stored ctx ctx' \<and> buffer r' = buffer r \<and> pos r' = pos r + item_bytes ctx \<and>
         u64_add (db_size ctx) i < length (pir_encoded_payloads ctx)"
proof -
  from assms obtain a_polys r1 where
    a: "read_many (read_poly False MOD_Q (rank ctx)) (stack ctx) r = Some (a_polys, r1)"
    by (auto simp: insert_item_def split: option.splits)
  from assms a obtain b r2 where
    b: "read_poly False MOD_Q (rank ctx) r1 = Some (b, r2)"
    by (auto simp: insert_item_def split: option.splits)
  from assms a b obtain payload r3 where
    p: "readBytes PIR_PAYLOAD_SIZE r2 = Some (payload, r3)"
    by (auto simp: insert_item_def split: option.splits)
  note ra = read_many_poly_Some [OF a] and rb = read_poly_Some [OF b] and rp = readBytes_Some [OF p]
  have pos3: "buffer r3 = buffer r \<and> pos r3 = pos r + item_bytes ctx"
    using ra rb rp by (simp add: item_bytes_def)
  from assms have "r' = r3 \<and> store_item c i \<lparr>mlwe_rank = rank ctx, mlwe_polys = a_polys @ [b]\<rparr> payload ctx = (None, ctx')"
    by (simp add: insert_item_def a b p split: prod.splits option.splits)
  then show ?thesis using pos3 store_item_None by blast
qed

lemma insert_item_enough:
  assumes enough: "pos r + item_bytes ctx \<le> length (buffer r)"
    and slot: "u64_add (db_size ctx) i < length (pir_encoded_payloads ctx)"
    and noex: "\<And>x res keys. snd (cacheKeys c x res keys) = None"
  shows "\<exists>r' ctx'. insert_item c i r ctx = (Next r', ctx')"
proof -
  have e1: "pos r + stack ctx * (rank ctx * 8) \<le> length (buffer r)"
    using enough by (simp add: item_bytes_def)
  from read_many_poly_enough [OF e1] obtain a_polys r1 where
    a: "read_many (read_poly False MOD_Q (rank ctx)) (stack ctx) r = Some (a_polys, r1)" by blast
  note ra = read_many_poly_Some [OF a]
  have e2: "pos r1 + rank ctx * 8 \<le> length (buffer r1)"
    using enough ra by (simp add: item_bytes_def)
  from read_poly_enough [OF e2] obtain b r2 where
    b: "read_poly False MOD_Q (rank ctx) r1 = Some (b, r2)" by blast
  note rb = read_poly_Some [OF b]
  have e3: "pos r2 + PIR_PAYLOAD_SIZE \<le> length (buffer r2)"
    using enough ra rb by (simp add: item_bytes_def)
  from readBytes_enough [OF e3] obtain payload r3 where
    p: "readBytes PIR_PAYLOAD_SIZE r2 = Some (payload, r3)" by blast
  from store_item_enough [OF slot noex] obtain ctx' where
    st: "store_item c i \<lparr>mlwe_rank = rank ctx, mlwe_polys = a_polys @ [b]\<rparr> payload ctx = (None, ctx')"
    by blast
  have "insert_item c i r ctx = (Next r3, ctx')"
    by (simp add: insert_item_def a b p st)
  then show ?thesis by blast
qed

lemma insert_item_short:
  assumes "pos r + stack ctx * (rank ctx * 8) > length (buffer r)" "pos r \<le> length (buffer r)"
  shows "insert_item c i r ctx = (Return (TextResponse bad_request ''Malformed key payload (A)''), ctx)"
  using read_many_poly_short [OF assms] by (simp add: insert_item_def)

lemma items_stored_step:
  assumes lp: "length (partial_block_keys ctx) < DEGREE"
    and one: "item_stored ctx ctx1" and rest: "items_stored n ctx1 ctx'"
  shows "items_stored (Suc n) ctx ctx'"
proof (cases "Suc (length (partial_block_keys ctx)) = DEGREE")
  case True
  then have d: "length (partial_block_keys ctx) + Suc n = DEGREE + n" by simp
  have d0: "0 < DEGREE" by (simp add: DEGREE_def)
  have dv: "(DEGREE + n) div DEGREE = Suc (n div DEGREE)" "(DEGREE + n) mod DEGREE = n mod DEGREE"
    using d0 by simp_all
  show ?thesis
    using one rest True unfolding item_stored_def items_stored_def d dv
    by (auto split: if_splits)
next
  case False
  then show ?thesis
    using one rest unfolding item_stored_def items_stored_def
    by (auto split: if_splits)
qed

lemma item_stored_partial_bound:
  "item_stored ctx ctx1 \<Longrightarrow> length (partial_block_keys ctx) < DEGREE \<Longrightarrow>
     length (partial_block_keys ctx1) < DEGREE"
  by (auto simp: item_stored_def DEGREE_def split: if_splits)

lemma insert_loop_Next:
  assumes "insert_loop c n i r ctx = (Next r', ctx')"
    and "length (partial_block_keys ctx) < DEGREE"
  shows "items_stored n ctx ctx' \<and> buffer r' = buffer r \<and> pos r' = pos r + n * item_bytes ctx \<and>
         (n > 0 \<longrightarrow> u64_add (db_size ctx) (i + n - 1) < length (pir_encoded_payloads ctx))"
  using assms
proof (induction n arbitrary: i r ctx)
  case 0
  then show ?case by (simp add: items_stored_def)
next
  case (Suc n)
  from Suc.prems(1) obtain r1 ctx1 where
    it: "insert_item c i r ctx = (Next r1, ctx1)" and lo: "insert_loop c n (Suc i) r1 ctx1 = (Next r', ctx')"
    by (auto split: prod.splits flow.splits)
  note one = insert_item_Next [OF it]
  have b1: "length (partial_block_keys ctx1) < DEGREE"
    using one Suc.prems(2) item_stored_partial_bound by blast
  note ih = Suc.IH [OF lo b1]
  have eqs: "item_bytes ctx1 = item_bytes ctx" "db_size ctx1 = db_size ctx"
    "length (pir_encoded_payloads ctx1) = length (pir_encoded_payloads ctx)"
    using one by (simp_all add: item_stored_def item_bytes_def)
  have st: "items_stored (Suc n) ctx ctx'"
    using items_stored_step [OF Suc.prems(2)] one ih by blast
  have slot: "u64_add (db_size ctx) (i + Suc n - 1) < length (pir_encoded_payloads ctx)"
  proof (cases "n = 0")
    case True
    then show ?thesis using one by simp
  next
    case False
    then show ?thesis using ih eqs by simp
  qed
  show ?case using st one ih eqs slot by simp
qed

lemma insert_loop_add:
  "insert_loop c (n + m) i r ctx =
     (case insert_loop c n i r ctx of
        (Next r', ctx') \<Rightarrow> insert_loop c m (i + n) r' ctx'
      | (Return resp, ctx') \<Rightarrow> (Return resp, ctx')
      | (Throw e, ctx') \<Rightarrow> (Throw e, ctx'))"
proof (induction n arbitrary: i r ctx)
  case 0
  then show ?case by simp
next
  case (Suc n)
  show ?case
    by (simp add: Suc.IH split: prod.splits flow.splits)
qed

lemma insert_loop_enough:
  assumes "pos r + n * item_bytes ctx \<le> length (buffer r)"
    and "db_size ctx + i + n \<le> length (pir_encoded_payloads ctx)"
    and "length (pir_encoded_payloads ctx) \<le> 2 ^ 64"
    and noex: "\<And>x res keys. snd (cacheKeys c x res keys) = None"
  shows "\<exists>r' ctx'. insert_loop c n i r ctx = (Next r', ctx')"
  using assms(1,2,3)
proof (induction n arbitrary: i r ctx)
  case 0
  then show ?case by simp
next
  case (Suc n)
  have e: "pos r + item_bytes ctx \<le> length (buffer r)" using Suc.prems(1) by simp
  have "db_size ctx + i < 2 ^ 64" using Suc.prems(2,3) by simp
  then have "u64_add (db_size ctx) i = db_size ctx + i" by (simp add: u64_add_def)
  then have slot: "u64_add (db_size ctx) i < length (pir_encoded_payloads ctx)"
    using Suc.prems(2) by simp
  from insert_item_enough [OF e slot noex] obtain r1 ctx1 where
    it: "insert_item c i r ctx = (Next r1, ctx1)" by blast
  note one = insert_item_Next [OF it]
  have eqs: "item_bytes ctx1 = item_bytes ctx" "db_size ctx1 = db_size ctx"
    "length (pir_encoded_payloads ctx1) = length (pir_encoded_payloads ctx)"
    using one by (simp_all add: item_stored_def item_bytes_def)
  have p1: "pos r1 + n * item_bytes ctx1 \<le> length (buffer r1)"
    using Suc.prems(1) one eqs by simp
  have p2: "db_size ctx1 + Suc i + n \<le> length (pir_encoded_payloads ctx1)"
    using Suc.prems(2) eqs by simp
  have p3: "length (pir_encoded_payloads ctx1) \<le> 2 ^ 64" using Suc.prems(3) eqs by simp
  from Suc.IH [OF p1 p2 p3] obtain r' ctx' where
    "insert_loop c n (Suc i) r1 ctx1 = (Next r', ctx')" by blast
  then show ?case using it by simp
qed

lemma u64_bytes_length: "length (u64_bytes x) = 8"
  by (simp add: u64_bytes_def)

lemma appendPoly_length:
  "appendPoly out p = Inr out' \<Longrightarrow> length out' = length out + DEGREE * 8"
  by (auto simp: appendPoly_def getDegree_def length_concat o_def u64_bytes_length sum_list_triv
      split: if_splits)

lemma appendCiphertext_length:
  "appendCiphertext out ct = Inr out' \<Longrightarrow> length out' = length out + 2 * (DEGREE * 8)"
  by (auto simp: appendCiphertext_def split: if_splits sum.splits dest!: appendPoly_length)

lemma inner_products_length:
  "inner_products ip cks out = Inr out' \<Longrightarrow>
     length out' = length out + length cks * (2 * (DEGREE * 8))"
proof (induction cks arbitrary: out)
  case Nil
  then show ?case by simp
next
  case (Cons ck cks)
  from Cons.prems obtain res out1 where
    a: "ip ck = Inr res" "appendCiphertext out res = Inr out1" "inner_products ip cks out1 = Inr out'"
    by (auto split: sum.splits)
  from appendCiphertext_length [OF a(2)] Cons.IH [OF a(3)] show ?case by simp
qed

lemma answer_query_length:
  assumes "answer_query ip ctx = Inr resp"
  shows "\<exists>out. resp = BinaryResponse out \<and> length out = ciphertexts_held ctx * (2 * (DEGREE * 8))"
proof -
  from assms obtain out where o: "inner_products ip (full_block_caches ctx) [] = Inr out"
    by (auto simp: answer_query_def split: sum.splits)
  note l = inner_products_length [OF o]
  show ?thesis
  proof (cases "partial_block_cache ctx")
    case None
    then show ?thesis using assms o l by (auto simp: answer_query_def ciphertexts_held_def)
  next
    case (Some pc)
    with assms o obtain pr out' where
      a: "ip pc = Inr pr" "appendCiphertext out pr = Inr out'" "resp = BinaryResponse out'"
      by (auto simp: answer_query_def split: sum.splits)
    from appendCiphertext_length [OF a(2)] l Some a(3) show ?thesis
      by (simp add: ciphertexts_held_def)
  qed
qed

lemma handleQuery_body_length:
  assumes "handleQuery c body isEncrypted s = (Inr (BinaryResponse out), s')"
    and "read_u64 (new_BinaryReader body) = Some (collectionHash, r1)"
    and "collections s collectionHash = Some ctx"
  shows "length out = ciphertexts_held ctx * (2 * (DEGREE * 8)) \<and> s' = s \<and> db_size ctx \<noteq> 0"
  using assms
  by (auto simp: handleQuery_def split: if_splits option.splits sum.splits dest!: answer_query_length)

lemma cache_partial_block_noex:
  assumes noex: "\<And>x res keys. snd (cacheKeys c x res keys) = None"
  shows "\<exists>ctx'. cache_partial_block c ctx = (None, ctx') \<and>
           full_block_caches ctx' = full_block_caches ctx \<and>
           partial_block_keys ctx' = partial_block_keys ctx \<and>
           db_size ctx' = db_size ctx \<and> rank ctx' = rank ctx \<and> stack ctx' = stack ctx \<and>
           (partial_block_keys ctx \<noteq> [] \<longrightarrow> partial_block_cache ctx' \<noteq> None) \<and>
           (partial_block_keys ctx = [] \<longrightarrow> partial_block_cache ctx' = partial_block_cache ctx)"
proof -
  have n: "\<And>x res keys. cacheKeys c x res keys = (fst (cacheKeys c x res keys), None)"
    using noex by (metis prod.collapse)
  show ?thesis
  proof (cases "partial_block_keys ctx = []")
    case True
    then show ?thesis by (simp add: cache_partial_block_def)
  next
    case False
    let ?padded = "partial_block_keys ctx
                 @ replicate (DEGREE - length (partial_block_keys ctx)) (new_MLWECiphertext (rank ctx))"
    obtain cache where ck: "cacheKeys c ctx (new_CachedKeys (rank ctx)) ?padded = (cache, None)"
      using n by blast
    have "cache_partial_block c ctx = (None, ctx\<lparr>partial_block_cache := Some cache\<rparr>)"
      using False by (simp add: cache_partial_block_def Let_def ck)
    then show ?thesis using False by simp
  qed
qed

lemma handleInsert_truncated:
  assumes h: "read_u64 (new_BinaryReader body) = Some (collectionHash, r1)"
    and num: "read_u64 r1 = Some (Suc n, r2)"
    and ctx: "collections s collectionHash = Some ctx"
    and bytes: "pos r2 + n * item_bytes ctx \<le> length (buffer r2)"
    and short: "pos r2 + n * item_bytes ctx + stack ctx * (rank ctx * 8) > length (buffer r2)"
    and slots: "db_size ctx + n \<le> length (pir_encoded_payloads ctx)"
               "length (pir_encoded_payloads ctx) \<le> 2 ^ 64"
    and lp: "length (partial_block_keys ctx) < DEGREE"
    and noex: "\<And>x res keys. snd (cacheKeys c x res keys) = None"
  shows "\<exists>ctx'. handleInsert c body s
                  = (Inr (TextResponse bad_request ''Malformed key payload (A)''),
                     put_collection collectionHash ctx' s) \<and>
               items_stored n ctx ctx'"
proof -
  have sl: "db_size ctx + 0 + n \<le> length (pir_encoded_payloads ctx)" using slots(1) by simp
  from insert_loop_enough [OF bytes sl slots(2) noex] obtain r' ctx' where
    lo: "insert_loop c n 0 r2 ctx = (Next r', ctx')" by blast
  note st = insert_loop_Next [OF lo lp]
  have eqs: "stack ctx' = stack ctx" "rank ctx' = rank ctx"
    using st by (simp_all add: items_stored_def)
  have s1: "pos r' + stack ctx' * (rank ctx' * 8) > length (buffer r')"
    using short st eqs by simp
  have s2: "pos r' \<le> length (buffer r')" using bytes st by simp
  have last: "insert_loop c 1 n r' ctx' = (Return (TextResponse bad_request ''Malformed key payload (A)''), ctx')"
    using insert_item_short [OF s1 s2] by simp
  have "insert_loop c (n + 1) 0 r2 ctx = (Return (TextResponse bad_request ''Malformed key payload (A)''), ctx')"
    unfolding insert_loop_add lo using last by simp
  then have "insert_loop c (Suc n) 0 r2 ctx = (Return (TextResponse bad_request ''Malformed key payload (A)''), ctx')"
    by simp
  then have "handleInsert c body s
                  = (Inr (TextResponse bad_request ''Malformed key payload (A)''),
                     put_collection collectionHash ctx' s)"
    by (simp add: handleInsert_def Let_def h num ctx)
  then show ?thesis using st by blast
qed

lemma handleInsert_complete:
  assumes h: "read_u64 (new_BinaryReader body) = Some (collectionHash, r1)"
    and num: "read_u64 r1 = Some (n, r2)"
    and ctx: "collections s collectionHash = Some ctx"
    and bytes: "pos r2 + n * item_bytes ctx \<le> length (buffer r2)"
    and slots: "db_size ctx + n \<le> length (pir_encoded_payloads ctx)"
               "length (pir_encoded_payloads ctx) < 2 ^ 64"
    and lp: "length (partial_block_keys ctx) < DEGREE"
    and noex: "\<And>x res keys. snd (cacheKeys c x res keys) = None"
  shows "\<exists>ctx1 ctx2. handleInsert c body s
                  = (Inr (BinaryResponse []),
                     put_collection collectionHash (ctx2\<lparr>db_size := db_size ctx + n\<rparr>) s) \<and>
               items_stored n ctx ctx1 \<and> cache_partial_block c ctx1 = (None, ctx2)"
proof -
  have sl: "db_size ctx + 0 + n \<le> length (pir_encoded_payloads ctx)" using slots(1) by simp
  have le: "length (pir_encoded_payloads ctx) \<le> 2 ^ 64" using slots(2) by simp
  from insert_loop_enough [OF bytes sl le noex] obtain r' ctx1 where
    lo: "insert_loop c n 0 r2 ctx = (Next r', ctx1)" by blast
  note st = insert_loop_Next [OF lo lp]
  from cache_partial_block_noex [OF noex, of ctx1] obtain ctx2 where
    cp: "cache_partial_block c ctx1 = (None, ctx2)" "db_size ctx2 = db_size ctx1" by blast
  have db: "db_size ctx2 = db_size ctx" using cp(2) st by (simp add: items_stored_def)
  have "db_size ctx + n < 2 ^ 64" using slots by simp
  then have add: "u64_add (db_size ctx2) n = db_size ctx + n" by (simp add: u64_add_def db)
  have "handleInsert c body s
                  = (Inr (BinaryResponse []),
                     put_collection collectionHash (ctx2\<lparr>db_size := db_size ctx + n\<rparr>) s)"
    by (simp add: handleInsert_def Let_def h num ctx lo cp(1) add)
  then show ?thesis using st cp(1) by blast
qed

lemma ceil_log2_4096: "ceil_log2 4096 = 12"
  by (simp add: ceil_log2.simps)

lemma example_collection_4096:
  "rank (example_collection 4096) = 4096" "stack (example_collection 4096) = 1"
  "db_size (example_collection 4096) = 0" "partial_block_keys (example_collection 4096) = []"
  "full_block_caches (example_collection 4096) = []" "partial_block_cache (example_collection 4096) = None"
  "length (pir_encoded_payloads (example_collection 4096)) = 1048576"
  "item_bytes (example_collection 4096) = 66560"
  by (simp_all add: example_collection_def new_CollectionData_def ceil_log2_4096 DEGREE_def
      PIR_RANK_def PIR_LOG_RANK_def item_bytes_def PIR_PAYLOAD_SIZE_def PIR_PER_COEFF_BITS_def)

lemma example_engine_noex: "snd (cacheKeys example_engine x res keys) = None"
  by (simp add: example_engine_def)

lemma appendCiphertext_new:
  "\<exists>out'. appendCiphertext out (new_Ciphertext False) = Inr out'"
  by (simp add: appendCiphertext_def appendPoly_def new_Ciphertext_def new_Polynomial_def
      getA_def getB_def getDegree_def)

lemma inner_products_example:
  "\<exists>out'. inner_products (\<lambda>ck. Inr (new_Ciphertext False)) cks out = Inr out'"
proof (induction cks arbitrary: out)
  case Nil
  then show ?case by simp
next
  case (Cons ck cks)
  from appendCiphertext_new [of out] obtain out1 where
    a: "appendCiphertext out (new_Ciphertext False) = Inr out1" by blast
  from Cons.IH [of out1] show ?case by (simp add: a)
qed

lemma answer_query_example:
  "\<exists>out. answer_query (\<lambda>ck. Inr (new_Ciphertext False)) ctx = Inr (BinaryResponse out)"
proof -
  from inner_products_example [of "full_block_caches ctx" "[]"] obtain out where
    o: "inner_products (\<lambda>ck. Inr (new_Ciphertext False)) (full_block_caches ctx) [] = Inr out" by blast
  from appendCiphertext_new [of out] obtain out1 where
    a: "appendCiphertext out (new_Ciphertext False) = Inr out1" by blast
  show ?thesis
    by (cases "partial_block_cache ctx") (simp_all add: answer_query_def o a)
qed

lemma handleQuery_example:
  assumes h: "read_u64 (new_BinaryReader body) = Some (collectionHash, r1)"
    and ctx: "collections s collectionHash = Some ctx"
    and db: "db_size ctx \<noteq> 0"
    and bytes: "pos r1 + stack ctx * (rank ctx * 8) + rank ctx * 8 \<le> length (buffer r1)"
  shows "\<exists>out. handleQuery example_engine body True s = (Inr (BinaryResponse out), s) \<and>
               length out = ciphertexts_held ctx * (2 * (DEGREE * 8))"
proof -
  have e1: "pos r1 + stack ctx * (rank ctx * 8) \<le> length (buffer r1)" using bytes by simp
  from read_many_poly_enough [OF e1] obtain a_polys r2 where
    a: "read_many (read_poly False MOD_Q (rank ctx)) (stack ctx) r1 = Some (a_polys, r2)" by blast
  note ra = read_many_poly_Some [OF a]
  have e2: "pos r2 + rank ctx * 8 \<le> length (buffer r2)" using bytes ra by simp
  from read_poly_enough [OF e2] obtain b r3 where
    b: "read_poly False MOD_Q (rank ctx) r2 = Some (b, r3)" by blast
  from answer_query_example [of ctx] obtain out where
    o: "answer_query (\<lambda>ck. Inr (new_Ciphertext False)) ctx = Inr (BinaryResponse out)" by blast
  have ip: "innerProduct example_engine ctx (new_CachedKeys (rank ctx)) = (\<lambda>ck. Inr (new_Ciphertext False))"
    by (simp add: example_engine_def)
  have cq: "cacheQuery example_engine ctx \<lparr>mlwe_rank = rank ctx, mlwe_polys = a_polys @ [b]\<rparr>
              = Inr (new_CachedKeys (rank ctx))"
    by (simp add: example_engine_def)
  have r: "handleQuery example_engine body True s = (Inr (BinaryResponse out), s)"
    using db by (simp add: handleQuery_def h ctx a b cq ip o)
  from handleQuery_body_length [OF r h ctx] r show ?thesis by blast
qed

text \<open>
  Claim C1 says that after any sequence of insert requests the server holds
  \<open>db_size div N\<close> full block caches, and a partial cache exactly when \<open>db_size mod N \<noteq> 0\<close>,
  so that a query response consists of \<open>\<lceil>db_size / N\<rceil>\<close> ciphertexts. \<open>handleInsert\<close> stores
  every item as it reads it and adds to \<open>db_size\<close> only after the loop, so a request that
  turns out to be too short returns 400 and leaves the items read so far in the collection.
  On a fresh collection of dimension 4096, the request that announces 4097 items and holds
  4096 is answered 400 and leaves one full block cache with \<open>db_size = 0\<close>; after the next
  request has inserted one item, \<open>db_size\<close> is 1 and the query response holds two
  ciphertexts.
\<close>

theorem truncated_insert_breaks_block_count:
  "\<exists>s1 s2 ctx1 ctx2 out.
     handleInsert example_engine
         ([7, 0, 0, 0, 0, 0, 0, 0] @ [1, 16, 0, 0, 0, 0, 0, 0] @ replicate (4096 * 66560) 0)
         \<lparr>collections = Map.empty(7 \<mapsto> example_collection 4096)\<rparr>
       = (Inr (TextResponse bad_request ''Malformed key payload (A)''), s1) \<and>
     collections s1 7 = Some ctx1 \<and> db_size ctx1 = 0 \<and> length (full_block_caches ctx1) = 1 \<and>
     handleInsert example_engine
         ([7, 0, 0, 0, 0, 0, 0, 0] @ [1, 0, 0, 0, 0, 0, 0, 0] @ replicate 66560 0) s1
       = (Inr (BinaryResponse []), s2) \<and>
     collections s2 7 = Some ctx2 \<and> db_size ctx2 = 1 \<and>
     length (full_block_caches ctx2) = 1 \<and> partial_block_cache ctx2 \<noteq> None \<and>
     handleQuery example_engine ([7, 0, 0, 0, 0, 0, 0, 0] @ replicate (2 * (4096 * 8)) 0) True s2
       = (Inr (BinaryResponse out), s2) \<and>
     length out = 2 * (2 * (DEGREE * 8))"
proof -
  let ?s0 = "\<lparr>collections = Map.empty(7 \<mapsto> example_collection 4096)\<rparr>"
  let ?c0 = "example_collection 4096"
  let ?b1 = "[7, 0, 0, 0, 0, 0, 0, 0] @ [1, 16, 0, 0, 0, 0, 0, 0] @ replicate (4096 * 66560) (0::byte)"
  let ?b2 = "[7, 0, 0, 0, 0, 0, 0, 0] @ [1, 0, 0, 0, 0, 0, 0, 0] @ replicate 66560 (0::byte)"
  let ?b3 = "[7, 0, 0, 0, 0, 0, 0, 0] @ replicate (2 * (4096 * 8)) (0::byte)"
  note ex = example_collection_4096
  have D: "DEGREE = 4096" by (simp add: DEGREE_def)
  \<comment> \<open>the truncated request\<close>
  have h1: "read_u64 (new_BinaryReader ?b1) = Some (7, \<lparr>buffer = ?b1, pos = 8\<rparr>)"
    by (simp add: read_u64_def readBytes_def new_BinaryReader_def le_u64_def)
  have n1: "read_u64 \<lparr>buffer = ?b1, pos = 8\<rparr> = Some (Suc 4096, \<lparr>buffer = ?b1, pos = 16\<rparr>)"
    by (simp add: read_u64_def readBytes_def le_u64_def)
  have c0: "collections ?s0 7 = Some ?c0" by simp
  from handleInsert_truncated [OF h1 n1 c0 _ _ _ _ _ example_engine_noex]
  obtain ctx1 where
    i1: "handleInsert example_engine ?b1 ?s0
           = (Inr (TextResponse bad_request ''Malformed key payload (A)''), put_collection 7 ctx1 ?s0)"
    and st1: "items_stored 4096 ?c0 ctx1"
    by (auto simp: ex D)
  let ?s1 = "put_collection 7 ctx1 ?s0"
  have f1: "rank ctx1 = 4096" "stack ctx1 = 1" "db_size ctx1 = 0"
    "length (pir_encoded_payloads ctx1) = 1048576"
    "length (full_block_caches ctx1) = 1" "length (partial_block_keys ctx1) = 0"
    "partial_block_cache ctx1 = None"
    using st1 by (simp_all add: items_stored_def ex D)
  have ib1: "item_bytes ctx1 = 66560"
    by (simp add: item_bytes_def f1 PIR_PAYLOAD_SIZE_def PIR_PER_COEFF_BITS_def D)
  have c1: "collections ?s1 7 = Some ctx1" by (simp add: put_collection_def)
  \<comment> \<open>the request that inserts one item\<close>
  have h2: "read_u64 (new_BinaryReader ?b2) = Some (7, \<lparr>buffer = ?b2, pos = 8\<rparr>)"
    by (simp add: read_u64_def readBytes_def new_BinaryReader_def le_u64_def)
  have n2: "read_u64 \<lparr>buffer = ?b2, pos = 8\<rparr> = Some (1, \<lparr>buffer = ?b2, pos = 16\<rparr>)"
    by (simp add: read_u64_def readBytes_def le_u64_def)
  from handleInsert_complete [OF h2 n2 c1 _ _ _ _ example_engine_noex]
  obtain ctx1' ctx2 where
    i2: "handleInsert example_engine ?b2 ?s1
           = (Inr (BinaryResponse []), put_collection 7 (ctx2\<lparr>db_size := db_size ctx1 + 1\<rparr>) ?s1)"
    and st2: "items_stored 1 ctx1 ctx1'"
    and cp: "cache_partial_block example_engine ctx1' = (None, ctx2)"
    by (auto simp: f1 ib1 D)
  have f1': "length (full_block_caches ctx1') = 1" "length (partial_block_keys ctx1') = 1"
    "rank ctx1' = 4096" "stack ctx1' = 1"
    using st2 by (simp_all add: items_stored_def f1 D)
  from cache_partial_block_noex [of example_engine ctx1'] cp
  have f2: "full_block_caches ctx2 = full_block_caches ctx1'" "partial_block_cache ctx2 \<noteq> None"
    "rank ctx2 = 4096" "stack ctx2 = 1"
    using f1' by (auto simp: example_engine_noex)
  let ?c2 = "ctx2\<lparr>db_size := db_size ctx1 + 1\<rparr>"
  let ?s2 = "put_collection 7 ?c2 ?s1"
  have c2: "collections ?s2 7 = Some ?c2" by (simp add: put_collection_def)
  have g2: "db_size ?c2 = 1" "length (full_block_caches ?c2) = 1" "partial_block_cache ?c2 \<noteq> None"
    using f1 f1' f2 by simp_all
  have held: "ciphertexts_held ?c2 = 2" using g2 by (simp add: ciphertexts_held_def)
  \<comment> \<open>the query\<close>
  have h3: "read_u64 (new_BinaryReader ?b3) = Some (7, \<lparr>buffer = ?b3, pos = 8\<rparr>)"
    by (simp add: read_u64_def readBytes_def new_BinaryReader_def le_u64_def)
  have db3: "db_size ?c2 \<noteq> 0" using g2 by simp
  from handleQuery_example [OF h3 c2 db3]
  obtain out where
    q: "handleQuery example_engine ?b3 True ?s2 = (Inr (BinaryResponse out), ?s2)"
       "length out = ciphertexts_held ?c2 * (2 * (DEGREE * 8))"
    by (auto simp: f2)
  show ?thesis
    using i1 c1 f1(3,5) i2 c2 g2 q held by (intro exI [of _ ?s1] exI [of _ ?s2] exI [of _ ctx1] exI [of _ ?c2] exI [of _ out]) simp
qed


subsection \<open>Top-k selection\<close>

text \<open>
  The heap operations of the standard library that \<open>std::priority_queue\<close> runs: the sift-up
  of \<open>push_heap\<close> and the sift-down of \<open>pop_heap\<close> keep the heap order and the entries.
\<close>

lemma parent_less: "0 < (i::nat) \<Longrightarrow> (i - 1) div 2 < i"
  by simp

lemma push_heap_impl_length: "length (push_heap_impl xs hole tp v) = length xs"
proof (induction xs hole tp v rule: push_heap_impl.induct)
  case (1 first holeIndex topIndex v)
  show ?case
    using 1 by (subst push_heap_impl.simps) (simp add: Let_def)
qed

lemma push_heap_impl_stop:
  "\<not> (holeIndex > topIndex \<and> Compare (first ! ((holeIndex - 1) div 2)) v) \<Longrightarrow>
     push_heap_impl first holeIndex topIndex v = first[holeIndex := v]"
  by (subst push_heap_impl.simps) (auto simp: Let_def)

lemma push_heap_impl_go:
  "holeIndex > topIndex \<Longrightarrow> Compare (first ! ((holeIndex - 1) div 2)) v \<Longrightarrow>
     push_heap_impl first holeIndex topIndex v
       = push_heap_impl (first[holeIndex := first ! ((holeIndex - 1) div 2)]) ((holeIndex - 1) div 2) topIndex v"
  by (subst push_heap_impl.simps) (auto simp: Let_def)

lemma mset_take_swap_update:
  assumes "p < n" "h < n" "n \<le> length xs" "p \<noteq> h"
  shows "mset (take n (xs[h := xs ! p, p := v])) = mset (take n (xs[h := v]))"
proof -
  let ?ys = "take n xs"
  have l: "length ?ys = n" using assms(3) by simp
  have a: "take n (xs[h := xs ! p, p := v]) = ?ys[h := ?ys ! p, p := v]"
    using assms by (simp add: take_update_swap)
  have b: "take n (xs[h := v]) = ?ys[h := v]"
    using assms by (simp add: take_update_swap)
  have "mset (?ys[h := ?ys ! p, p := v])
          = add_mset v (mset (?ys[h := ?ys ! p]) - {#?ys[h := ?ys ! p] ! p#})"
    using assms l by (simp add: mset_update)
  also have "\<dots> = add_mset v (add_mset (?ys ! p) (mset ?ys - {#?ys ! h#}) - {#?ys ! p#})"
    using assms l by (simp add: mset_update)
  also have "\<dots> = add_mset v (mset ?ys - {#?ys ! h#})" by simp
  also have "\<dots> = mset (?ys[h := v])" using assms l by (simp add: mset_update)
  finally show ?thesis by (simp only: a b)
qed

lemma up_inv_step:
  assumes inv: "up_inv n xs hole v" and pos: "0 < hole"
    and cmp: "fst v < fst (xs ! ((hole - 1) div 2))"
  shows "up_inv n (xs[hole := xs ! ((hole - 1) div 2)]) ((hole - 1) div 2) v"
proof -
  let ?p = "(hole - 1) div 2"
  let ?xs' = "xs[hole := xs ! ?p]"
  have pl: "?p < hole" using pos by simp
  have hn: "hole < n" "n \<le> length xs" using inv by (simp_all add: up_inv_def)
  have A: "\<And>i. i \<in> {1..<n} \<Longrightarrow> i \<noteq> hole \<Longrightarrow> (i - 1) div 2 \<noteq> hole \<Longrightarrow> fst (xs ! ((i - 1) div 2)) \<le> fst (xs ! i)"
    using inv by (simp add: up_inv_def)
  have B: "\<And>c. c \<in> {1..<n} \<Longrightarrow> (c - 1) div 2 = hole \<Longrightarrow> fst v \<le> fst (xs ! c)"
    using inv by (simp add: up_inv_def)
  have C: "\<And>c. c \<in> {1..<n} \<Longrightarrow> (c - 1) div 2 = hole \<Longrightarrow> fst (xs ! ?p) \<le> fst (xs ! c)"
    using inv pos by (simp add: up_inv_def)
  have nth': "\<And>j. j \<noteq> hole \<Longrightarrow> ?xs' ! j = xs ! j" by simp
  have nthh: "?xs' ! hole = xs ! ?p" using hn by simp
  have hin: "hole \<in> {1..<n}" using pos hn by simp
  show ?thesis
    unfolding up_inv_def
  proof (intro conjI ballI impI)
    show "?p < n" using pl hn by simp
    show "n \<le> length ?xs'" using hn by simp
  next
    fix i assume i: "i \<in> {1..<n}" "i \<noteq> ?p" "(i - 1) div 2 \<noteq> ?p"
    then have ih: "i \<noteq> hole" by auto
    show "fst (?xs' ! ((i - 1) div 2)) \<le> fst (?xs' ! i)"
    proof (cases "(i - 1) div 2 = hole")
      case True
      then show ?thesis using C [OF i(1) True] nthh nth' [OF ih] by simp
    next
      case False
      then show ?thesis using A [OF i(1) ih False] nth' [OF ih] nth' [OF False] by simp
    qed
  next
    fix c assume c: "c \<in> {1..<n}" "(c - 1) div 2 = ?p"
    show "fst v \<le> fst (?xs' ! c)"
    proof (cases "c = hole")
      case True
      then show ?thesis using nthh cmp by simp
    next
      case False
      have "(c - 1) div 2 \<noteq> hole" using c(2) pl by simp
      from A [OF c(1) False this] have "fst (xs ! ?p) \<le> fst (xs ! c)" using c(2) by simp
      then show ?thesis using nth' [OF False] cmp by simp
    qed
  next
    fix c assume c: "c \<in> {1..<n}" "(c - 1) div 2 = ?p" "0 < ?p"
    let ?pp = "(?p - 1) div 2"
    have ppl: "?pp < ?p" using c(3) by simp
    have pin: "?p \<in> {1..<n}" using c(3) pl hn by simp
    have e1: "fst (xs ! ?pp) \<le> fst (xs ! ?p)"
      using A [OF pin] pl ppl by simp
    have pph: "?xs' ! ?pp = xs ! ?pp" using ppl pl by simp
    show "fst (?xs' ! ?pp) \<le> fst (?xs' ! c)"
    proof (cases "c = hole")
      case True
      then show ?thesis using nthh e1 pph by simp
    next
      case False
      have "(c - 1) div 2 \<noteq> hole" using c(2) pl by simp
      from A [OF c(1) False this] have "fst (xs ! ?p) \<le> fst (xs ! c)" using c(2) by simp
      then show ?thesis using nth' [OF False] e1 pph by simp
    qed
  qed
qed

lemma up_inv_done:
  assumes inv: "up_inv n xs hole v"
    and stop: "\<not> (0 < hole \<and> fst v < fst (xs ! ((hole - 1) div 2)))"
  shows "heap_upto n (xs[hole := v])"
proof -
  let ?ys = "xs[hole := v]"
  have hn: "hole < n" "n \<le> length xs" using inv by (simp_all add: up_inv_def)
  have A: "\<And>i. i \<in> {1..<n} \<Longrightarrow> i \<noteq> hole \<Longrightarrow> (i - 1) div 2 \<noteq> hole \<Longrightarrow> fst (xs ! ((i - 1) div 2)) \<le> fst (xs ! i)"
    using inv by (simp add: up_inv_def)
  have B: "\<And>c. c \<in> {1..<n} \<Longrightarrow> (c - 1) div 2 = hole \<Longrightarrow> fst v \<le> fst (xs ! c)"
    using inv by (simp add: up_inv_def)
  show ?thesis
    unfolding heap_upto_def
  proof (intro conjI ballI)
    show "n \<le> length ?ys" using hn by simp
  next
    fix i assume i: "i \<in> {1..<n}"
    show "fst (?ys ! ((i - 1) div 2)) \<le> fst (?ys ! i)"
    proof (cases "i = hole")
      case True
      then have "0 < hole" using i by simp
      then have "fst (xs ! ((hole - 1) div 2)) \<le> fst v" "(hole - 1) div 2 \<noteq> hole"
        using stop by (simp_all add: not_less)
      then show ?thesis using True hn by simp
    next
      case False
      show ?thesis
      proof (cases "(i - 1) div 2 = hole")
        case True
        then show ?thesis using B [OF i True] False hn by simp
      next
        case F2: False
        then show ?thesis using A [OF i False F2] False by simp
      qed
    qed
  qed
qed

lemma push_heap_impl_correct:
  "up_inv n xs hole v \<Longrightarrow>
     heap_upto n (push_heap_impl xs hole 0 v) \<and>
     mset (take n (push_heap_impl xs hole 0 v)) = mset (take n (xs[hole := v]))"
proof (induction xs hole "0::nat" v rule: push_heap_impl.induct)
  case (1 first holeIndex v)
  let ?p = "(holeIndex - 1) div 2"
  show ?case
  proof (cases "0 < holeIndex \<and> Compare (first ! ?p) v")
    case True
    then have cmp: "fst v < fst (first ! ?p)" and pos: "0 < holeIndex" by (simp_all add: Compare_def)
    have hn: "holeIndex < n" "n \<le> length first" using "1.prems" by (simp_all add: up_inv_def)
    note st = up_inv_step [OF "1.prems" pos cmp]
    have ih: "heap_upto n (push_heap_impl (first[holeIndex := first ! ?p]) ?p 0 v) \<and>
          mset (take n (push_heap_impl (first[holeIndex := first ! ?p]) ?p 0 v))
            = mset (take n (first[holeIndex := first ! ?p, ?p := v]))"
      using "1.hyps" [OF refl _ st] True by simp
    have pl: "?p < holeIndex" using pos by simp
    have sw: "mset (take n (first[holeIndex := first ! ?p, ?p := v])) = mset (take n (first[holeIndex := v]))"
      using pl hn by (intro mset_take_swap_update) simp_all
    have unf: "push_heap_impl first holeIndex 0 v = push_heap_impl (first[holeIndex := first ! ?p]) ?p 0 v"
      using True by (intro push_heap_impl_go) simp_all
    show ?thesis using ih sw unf by simp
  next
    case False
    have unf: "push_heap_impl first holeIndex 0 v = first[holeIndex := v]"
      using False by (intro push_heap_impl_stop) simp
    have "\<not> (0 < holeIndex \<and> fst v < fst (first ! ?p))" using False by (simp add: Compare_def)
    from up_inv_done [OF "1.prems" this] show ?thesis using unf by simp
  qed
qed

lemma adjust_heap_down_stop:
  "\<not> holeIndex < (len - 1) div 2 \<Longrightarrow> adjust_heap_down first holeIndex len = (first, holeIndex)"
  by (subst adjust_heap_down.simps) simp

lemma adjust_heap_down_go:
  "holeIndex < (len - 1) div 2 \<Longrightarrow>
     adjust_heap_down first holeIndex len =
       (let secondChild = (if Compare (first ! (2 * (holeIndex + 1))) (first ! (2 * (holeIndex + 1) - 1))
                           then 2 * (holeIndex + 1) - 1 else 2 * (holeIndex + 1))
        in adjust_heap_down (first[holeIndex := first ! secondChild]) secondChild len)"
  by (subst adjust_heap_down.simps) (simp add: Let_def)

lemma heap_upto_move_child:
  assumes h: "heap_upto n xs" and c: "c < n" "(c - 1) div 2 = hole" "0 < c"
    and least: "\<And>d. d \<in> {1..<n} \<Longrightarrow> (d - 1) div 2 = hole \<Longrightarrow> fst (xs ! c) \<le> fst (xs ! d)"
  shows "heap_upto n (xs[hole := xs ! c])"
proof -
  let ?ys = "xs[hole := xs ! c]"
  have n: "n \<le> length xs" and H: "\<And>i. i \<in> {1..<n} \<Longrightarrow> fst (xs ! ((i - 1) div 2)) \<le> fst (xs ! i)"
    using h by (simp_all add: heap_upto_def)
  have hl: "hole < c" using c(2,3) by auto
  have hlen: "hole < length xs" using hl c(1) n by simp
  show ?thesis
    unfolding heap_upto_def
  proof (intro conjI ballI)
    show "n \<le> length ?ys" using n by simp
  next
    fix i assume i: "i \<in> {1..<n}"
    show "fst (?ys ! ((i - 1) div 2)) \<le> fst (?ys ! i)"
    proof (cases "i = hole")
      case True
      then have ne: "(i - 1) div 2 \<noteq> hole" using i by auto
      have "fst (xs ! ((hole - 1) div 2)) \<le> fst (xs ! hole)" using H [OF i] True by simp
      also have "\<dots> \<le> fst (xs ! c)" using H [of c] c by simp
      finally show ?thesis using True ne hlen by simp
    next
      case False
      show ?thesis
      proof (cases "(i - 1) div 2 = hole")
        case True
        then show ?thesis using least [OF i True] False hlen by simp
      next
        case F2: False
        then show ?thesis using H [OF i] False by simp
      qed
    qed
  qed
qed

lemma children_of:
  fixes d hole :: nat
  assumes "0 < d" "(d - 1) div 2 = hole"
  shows "d = 2 * hole + 1 \<or> d = 2 * hole + 2"
  using assms by presburger

lemma adjust_heap_down_correct:
  assumes "heap_upto n xs" "hole < n"
  shows "\<exists>xs' hole'. adjust_heap_down xs hole n = (xs', hole') \<and>
           heap_upto n xs' \<and> hole' < n \<and> \<not> hole' < (n - 1) div 2 \<and>
           (\<forall>v. mset (take n (xs'[hole' := v])) = mset (take n (xs[hole := v])))"
  using assms
proof (induction xs hole n rule: adjust_heap_down.induct)
  case (1 first holeIndex len)
  show ?case
  proof (cases "holeIndex < (len - 1) div 2")
    case False
    then show ?thesis using adjust_heap_down_stop [OF False] "1.prems" by simp
  next
    case True
    let ?r = "2 * (holeIndex + 1)"
    let ?sc = "if Compare (first ! ?r) (first ! (?r - 1)) then ?r - 1 else ?r"
    have rl: "?r < len" using True by simp
    have scl: "?sc < len" "0 < ?sc" "(?sc - 1) div 2 = holeIndex" "holeIndex < ?sc"
      using rl by auto
    have n: "len \<le> length first" using "1.prems" by (simp add: heap_upto_def)
    have least: "fst (first ! ?sc) \<le> fst (first ! d)" if d: "d \<in> {1..<len}" "(d - 1) div 2 = holeIndex" for d
    proof -
      from children_of [of d holeIndex] d have "d = ?r - 1 \<or> d = ?r" by auto
      then show ?thesis by (auto simp: Compare_def)
    qed
    have hp: "heap_upto len (first[holeIndex := first ! ?sc])"
      by (rule heap_upto_move_child [OF "1.prems"(1) scl(1) scl(3) scl(2) least])
    from "1.IH" [OF True refl refl hp scl(1)]
    obtain xs' hole' where
      r: "adjust_heap_down (first[holeIndex := first ! ?sc]) ?sc len = (xs', hole')"
         "heap_upto len xs'" "hole' < len" "\<not> hole' < (len - 1) div 2"
         "\<forall>v. mset (take len (xs'[hole' := v])) = mset (take len (first[holeIndex := first ! ?sc, ?sc := v]))"
      by blast
    have sw: "\<And>v. mset (take len (first[holeIndex := first ! ?sc, ?sc := v])) = mset (take len (first[holeIndex := v]))"
      using scl "1.prems"(2) n by (intro mset_take_swap_update) simp_all
    have unf: "adjust_heap_down first holeIndex len = (xs', hole')"
      using adjust_heap_down_go [OF True, of first] r(1) by (simp add: Let_def)
    show ?thesis using unf r(2,3,4,5) sw by simp
  qed
qed

lemma adjust_heap_down_length:
  "adjust_heap_down xs hole n = (xs', hole') \<Longrightarrow> length xs' = length xs"
proof (induction xs hole n arbitrary: xs' hole' rule: adjust_heap_down.induct)
  case (1 first holeIndex len)
  show ?case
  proof (cases "holeIndex < (len - 1) div 2")
    case False
    then show ?thesis using adjust_heap_down_stop [OF False] "1.prems" by simp
  next
    case True
    let ?r = "2 * (holeIndex + 1)"
    let ?sc = "if Compare (first ! ?r) (first ! (?r - 1)) then ?r - 1 else ?r"
    have "adjust_heap_down (first[holeIndex := first ! ?sc]) ?sc len = (xs', hole')"
      using adjust_heap_down_go [OF True, of first] "1.prems" by (simp add: Let_def)
    from "1.IH" [OF True refl refl this] show ?thesis by simp
  qed
qed

lemma leaf_up_inv:
  assumes h: "heap_upto n xs" and hole: "hole < n" and leaf: "n \<le> 2 * hole + 1"
  shows "up_inv n xs hole v"
proof -
  have n: "n \<le> length xs" and H: "\<And>i. i \<in> {1..<n} \<Longrightarrow> fst (xs ! ((i - 1) div 2)) \<le> fst (xs ! i)"
    using h by (simp_all add: heap_upto_def)
  have nochild: "\<And>c. c \<in> {1..<n} \<Longrightarrow> (c - 1) div 2 \<noteq> hole"
  proof
    fix c assume c: "c \<in> {1..<n}" "(c - 1) div 2 = hole"
    from children_of [of c hole] c have "c \<ge> 2 * hole + 1" by auto
    then show False using c(1) leaf by simp
  qed
  show ?thesis
    unfolding up_inv_def using hole n H nochild by auto
qed

lemma adjust_heap_correct:
  assumes h: "heap_upto n xs" and n: "0 < n"
  shows "heap_upto n (adjust_heap xs 0 n v) \<and>
         mset (take n (adjust_heap xs 0 n v)) = mset (take n (xs[0 := v])) \<and>
         length (adjust_heap xs 0 n v) = length xs"
proof -
  from adjust_heap_down_correct [OF h n] obtain xs1 h1 where
    d: "adjust_heap_down xs 0 n = (xs1, h1)" "heap_upto n xs1" "h1 < n" "\<not> h1 < (n - 1) div 2"
       "\<forall>v. mset (take n (xs1[h1 := v])) = mset (take n (xs[0 := v]))"
    by blast
  have len1: "n \<le> length xs1" using d(2) by (simp add: heap_upto_def)
  have adjust_heap_down_length_aux: "length xs1 = length xs" using adjust_heap_down_length [OF d(1)] .
  show ?thesis
  proof (cases "even n \<and> 2 \<le> n \<and> h1 = (n - 2) div 2")
    case True
    let ?c = "2 * (h1 + 1) - 1"
    have c: "?c = n - 1" "?c < n" "0 < ?c" "(?c - 1) div 2 = h1" "h1 < ?c"
      using True by (auto elim!: evenE)
    have least: "fst (xs1 ! ?c) \<le> fst (xs1 ! dd)" if dd: "dd \<in> {1..<n}" "(dd - 1) div 2 = h1" for dd
    proof -
      from children_of [of dd h1] dd have "dd = ?c \<or> dd = ?c + 1" by auto
      then have "dd = ?c" using dd(1) c(1) by auto
      then show ?thesis by simp
    qed
    have hp: "heap_upto n (xs1[h1 := xs1 ! ?c])"
      by (rule heap_upto_move_child [OF d(2) c(2) c(4) c(3) least])
    have up: "up_inv n (xs1[h1 := xs1 ! ?c]) ?c v"
      using c by (intro leaf_up_inv [OF hp]) simp_all
    have unf: "adjust_heap xs 0 n v = push_heap_impl (xs1[h1 := xs1 ! ?c]) ?c 0 v"
      using True by (simp add: adjust_heap_def d(1) Let_def)
    have sw: "mset (take n (xs1[h1 := xs1 ! ?c, ?c := v])) = mset (take n (xs1[h1 := v]))"
      using c d(3) len1 by (intro mset_take_swap_update) simp_all
    from push_heap_impl_correct [OF up] sw d(5) show ?thesis
      unfolding unf using push_heap_impl_length [of "xs1[h1 := xs1 ! ?c]" ?c 0 v]
        adjust_heap_down_length_aux
      by simp
  next
    case False
    have leaf: "n \<le> 2 * h1 + 1"
    proof (cases "even n")
      case True
      then show ?thesis using False d(4) n by (auto elim!: evenE)
    next
      case odd: False
      then show ?thesis using d(4) by (auto elim!: oddE)
    qed
    have up: "up_inv n xs1 h1 v" by (rule leaf_up_inv [OF d(2,3) leaf])
    have unf: "adjust_heap xs 0 n v = push_heap_impl xs1 h1 0 v"
      using False by (auto simp: adjust_heap_def d(1) Let_def)
    from push_heap_impl_correct [OF up] d(5) show ?thesis
      unfolding unf using push_heap_impl_length [of xs1 h1 0 v] adjust_heap_down_length_aux
      by simp
  qed
qed

lemma pq_push_correct:
  assumes "is_heap c"
  shows "is_heap (pq_push c x) \<and> mset (pq_push c x) = add_mset x (mset c)"
proof -
  let ?n = "length c"
  let ?xs = "c @ [x]"
  have H: "\<And>i. i \<in> {1..<?n} \<Longrightarrow> fst (c ! ((i - 1) div 2)) \<le> fst (c ! i)"
    using assms by (simp add: is_heap_def heap_upto_def)
  have nochild: "\<And>d. d \<in> {1..<Suc ?n} \<Longrightarrow> (d - 1) div 2 \<noteq> ?n"
  proof
    fix d assume d: "d \<in> {1..<Suc ?n}" "(d - 1) div 2 = ?n"
    from children_of [of d ?n] d have "d \<ge> 2 * ?n + 1" by auto
    then show False using d(1) by simp
  qed
  have up: "up_inv (Suc ?n) ?xs ?n x"
    unfolding up_inv_def
  proof (intro conjI ballI impI)
    fix i assume i: "i \<in> {1..<Suc ?n}" "i \<noteq> ?n" "(i - 1) div 2 \<noteq> ?n"
    then have il: "i \<in> {1..<?n}" by auto
    then have "(i - 1) div 2 < ?n" by auto
    then show "fst (?xs ! ((i - 1) div 2)) \<le> fst (?xs ! i)"
      using H [OF il] il by (simp add: nth_append)
  qed (use nochild in auto)
  have e: "pq_push c x = push_heap_impl ?xs ?n 0 x"
    by (simp add: pq_push_def push_heap_def)
  have l: "length (pq_push c x) = Suc ?n"
    unfolding e by (simp add: push_heap_impl_length)
  from push_heap_impl_correct [OF up] have
    a: "heap_upto (Suc ?n) (pq_push c x)" and
    b: "mset (take (Suc ?n) (pq_push c x)) = mset (take (Suc ?n) (?xs[?n := x]))"
    unfolding e by simp_all
  have "mset (pq_push c x) = mset (?xs[?n := x])" using b l by simp
  then show ?thesis using a l by (simp add: is_heap_def)
qed

lemma heap_top_least:
  assumes "is_heap c" "i < length c"
  shows "fst (c ! 0) \<le> fst (c ! i)"
  using assms(2)
proof (induction i rule: less_induct)
  case (less i)
  show ?case
  proof (cases "i = 0")
    case True
    then show ?thesis by simp
  next
    case False
    then have i: "i \<in> {1..<length c}" using less.prems by simp
    have p: "(i - 1) div 2 < i" using False by simp
    have "fst (c ! 0) \<le> fst (c ! ((i - 1) div 2))"
      using less.IH [OF p] p less.prems by simp
    also have "\<dots> \<le> fst (c ! i)"
      using assms(1) i by (simp add: is_heap_def heap_upto_def)
    finally show ?thesis .
  qed
qed

lemma pq_pop_correct:
  assumes h: "is_heap c" and ne: "c \<noteq> []"
  shows "is_heap (pq_pop c) \<and> add_mset (c ! 0) (mset (pq_pop c)) = mset c"
proof (cases "length c > 1")
  case False
  then obtain a where c: "c = [a]" using ne by (cases c) auto
  show ?thesis by (simp add: c pq_pop_def pop_heap_def is_heap_def heap_upto_def)
next
  case True
  define n where "n = length c - 1"
  have n: "0 < n" "length c = Suc n" using True by (simp_all add: n_def)
  let ?c1 = "c[n := c ! 0]"
  have H: "\<And>i. i \<in> {1..<length c} \<Longrightarrow> fst (c ! ((i - 1) div 2)) \<le> fst (c ! i)"
    using h by (simp add: is_heap_def heap_upto_def)
  have h1: "heap_upto n ?c1"
    unfolding heap_upto_def
  proof (intro conjI ballI)
    show "n \<le> length ?c1" using n by simp
  next
    fix i assume i: "i \<in> {1..<n}"
    then have "(i - 1) div 2 < n" "i \<noteq> n" "(i - 1) div 2 \<noteq> n" by auto
    then show "fst (?c1 ! ((i - 1) div 2)) \<le> fst (?c1 ! i)"
      using H [of i] i n by simp
  qed
  let ?res = "adjust_heap ?c1 0 n (c ! n)"
  from adjust_heap_correct [OF h1 n(1), of "c ! n"] have
    a: "heap_upto n ?res" and
    b: "mset (take n ?res) = mset (take n (?c1[0 := c ! n]))" and
    l: "length ?res = length c"
    by simp_all
  have ph: "pop_heap c = ?res"
    unfolding pop_heap_def Let_def n_def [symmetric] using True by simp
  have e: "pq_pop c = take n ?res"
    unfolding pq_pop_def ph using l n(2) by (simp add: butlast_conv_take)
  have hp: "is_heap (pq_pop c)"
    unfolding e is_heap_def heap_upto_def
  proof (intro conjI ballI)
    show "length (take n ?res) \<le> length (take n ?res)" by simp
  next
    fix i assume i: "i \<in> {1..<length (take n ?res)}"
    then have il: "i \<in> {1..<n}" "i < n" "(i - 1) div 2 < n" using l n by auto
    then show "fst (take n ?res ! ((i - 1) div 2)) \<le> fst (take n ?res ! i)"
      using a by (simp add: heap_upto_def)
  qed
  have "?c1[0 := c ! n] = (c[0 := c ! n])[n := c ! 0]"
    using n by (simp add: list_update_swap)
  then have "take n (?c1[0 := c ! n]) = take n (c[0 := c ! n])"
    by (simp only: take_update_cancel [OF order_refl])
  also have "\<dots> = (take n c)[0 := c ! n]"
    using n by (simp add: take_update_swap)
  finally have t: "take n (?c1[0 := c ! n]) = (take n c)[0 := c ! n]" .
  have cs: "c = take n c @ [c ! n]"
    using n by (metis lessI take_Suc_conv_app_nth take_all order_refl)
  have z: "take n c ! 0 = c ! 0" using n by simp
  have "add_mset (c ! 0) (mset ((take n c)[0 := c ! n]))
          = add_mset (c ! 0) (add_mset (c ! n) (mset (take n c) - {#take n c ! 0#}))"
    using n by (simp add: mset_update)
  also have "\<dots> = add_mset (c ! n) (mset (take n c))"
  proof -
    have "take n c ! 0 \<in># mset (take n c)" using n by (intro nth_mem_mset) simp
    then have "add_mset (take n c ! 0) (mset (take n c) - {#take n c ! 0#}) = mset (take n c)"
      by (rule insert_DiffM)
    then show ?thesis using z by (simp add: add_mset_commute)
  qed
  also have "\<dots> = mset c" using cs by (metis mset.simps(2) mset_append union_mset_add_mset_right add.right_neutral mset.simps(1))
  finally show ?thesis using hp b e t by simp
qed

lemma pq_pop_length:
  assumes "is_heap c" "c \<noteq> []"
  shows "length (pq_pop c) = length c - 1"
proof -
  from pq_pop_correct [OF assms] have "size (add_mset (c ! 0) (mset (pq_pop c))) = size (mset c)"
    by simp
  then show ?thesis by simp
qed

text \<open>
  The scan keeps its invariant at every visited entry, and the emit loop pops the heap in
  ascending order of score, filling the result from the back.
\<close>

lemma topK_visit_inv:
  assumes inv: "topk_inv k es h" and k: "0 < k"
  shows "\<exists>h'. topK_visit k v idx h = Inr h' \<and> topk_inv k (es @ [(v, idx)]) h'"
proof -
  from inv obtain R where
    hp: "is_heap h" and len: "length h = min k (length es)"
    and R: "mset es = mset h + R" "\<forall>a\<in>#R. \<forall>b\<in>#mset h. fst a \<le> fst b"
    by (auto simp: topk_inv_def)
  have sz: "length es = length h + size R"
    using R(1) by (metis size_mset size_union)
  show ?thesis
  proof (cases "length h < k")
    case True
    then have "length h = length es" using len by simp
    then have R0: "R = {#}" using sz by simp
    from pq_push_correct [OF hp, of "(v, idx)"] have
      p: "is_heap (pq_push h (v, idx))" "mset (pq_push h (v, idx)) = add_mset (v, idx) (mset h)"
      by simp_all
    have l: "length (pq_push h (v, idx)) = Suc (length h)"
      using p(2) by (metis size_mset size_add_mset)
    have "topk_inv k (es @ [(v, idx)]) (pq_push h (v, idx))"
      unfolding topk_inv_def
    proof (intro conjI exI [of _ "{#}"])
      show "is_heap (pq_push h (v, idx))" by (rule p(1))
      show "length (pq_push h (v, idx)) = min k (length (es @ [(v, idx)]))"
        using l True \<open>length h = length es\<close> by simp
      show "mset (es @ [(v, idx)]) = mset (pq_push h (v, idx)) + {#}"
        using p(2) R(1) R0 by simp
    qed simp
    then show ?thesis using True by (simp add: topK_visit_def)
  next
    case False
    then have lk: "length h = k" "k \<le> length es" using len by (simp_all add: min_def split: if_splits)
    then have ne: "h \<noteq> []" using k by auto
    let ?t = "h ! 0"
    have tmin: "\<And>b. b \<in># mset h \<Longrightarrow> fst ?t \<le> fst b"
      using heap_top_least [OF hp] by (metis in_set_conv_nth set_mset_mset)
    have tin: "?t \<in># mset h" using ne by (simp add: nth_mem_mset)
    show ?thesis
    proof (cases "fst (pq_top h) < v")
      case True
      then have tv: "fst ?t < v" by (simp add: pq_top_def)
      from pq_pop_correct [OF hp ne] have
        pp: "is_heap (pq_pop h)" "add_mset ?t (mset (pq_pop h)) = mset h" by simp_all
      from pq_push_correct [OF pp(1), of "(v, idx)"] have
        p: "is_heap (pq_push (pq_pop h) (v, idx))"
           "mset (pq_push (pq_pop h) (v, idx)) = add_mset (v, idx) (mset (pq_pop h))"
        by simp_all
      let ?h' = "pq_push (pq_pop h) (v, idx)"
      have sub: "\<And>b. b \<in># mset (pq_pop h) \<Longrightarrow> b \<in># mset h"
        using pp(2) by (metis insert_iff set_mset_add_mset_insert)
      have l: "length ?h' = k"
      proof -
        have "size (mset h) = Suc (size (mset (pq_pop h)))" using pp(2) by (metis size_add_mset)
        moreover have "size (mset ?h') = Suc (size (mset (pq_pop h)))" using p(2) by simp
        ultimately show ?thesis using lk by simp
      qed
      have "topk_inv k (es @ [(v, idx)]) ?h'"
        unfolding topk_inv_def
      proof (intro conjI exI [of _ "add_mset ?t R"])
        show "is_heap ?h'" by (rule p(1))
        show "length ?h' = min k (length (es @ [(v, idx)]))" using l lk by simp
        show "mset (es @ [(v, idx)]) = mset ?h' + add_mset ?t R"
          using p(2) pp(2) R(1) by (simp add: add_mset_commute)
        show "\<forall>a\<in>#add_mset ?t R. \<forall>b\<in>#mset ?h'. fst a \<le> fst b"
        proof (intro ballI)
          fix a b assume a: "a \<in># add_mset ?t R" and b: "b \<in># mset ?h'"
          have at: "fst a \<le> fst ?t"
          proof (cases "a = ?t")
            case True then show ?thesis by simp
          next
            case False
            then have "a \<in># R" using a by simp
            then show ?thesis using R(2) tin by blast
          qed
          from b p(2) have "b = (v, idx) \<or> b \<in># mset (pq_pop h)" by auto
          then show "fst a \<le> fst b"
          proof
            assume "b = (v, idx)"
            then show ?thesis using at tv by simp
          next
            assume "b \<in># mset (pq_pop h)"
            then have "fst ?t \<le> fst b" using sub tmin by blast
            then show ?thesis using at by simp
          qed
        qed
      qed
      then show ?thesis using False ne True by (simp add: topK_visit_def)
    next
      case F2: False
      then have vt: "v \<le> fst ?t" by (simp add: pq_top_def)
      have "topk_inv k (es @ [(v, idx)]) h"
        unfolding topk_inv_def
      proof (intro conjI exI [of _ "add_mset (v, idx) R"])
        show "is_heap h" by (rule hp)
        show "length h = min k (length (es @ [(v, idx)]))" using lk by simp
        show "mset (es @ [(v, idx)]) = mset h + add_mset (v, idx) R" using R(1) by simp
        show "\<forall>a\<in>#add_mset (v, idx) R. \<forall>b\<in>#mset h. fst a \<le> fst b"
          using R(2) vt tmin by (auto intro: order_trans)
      qed
      then show ?thesis using False ne F2 by (simp add: topK_visit_def)
    qed
  qed
qed

lemma foldE_append:
  "foldE f (xs @ ys) s = (case foldE f xs s of Inl e \<Rightarrow> Inl e | Inr s' \<Rightarrow> foldE f ys s')"
  by (induction xs arbitrary: s) (auto split: sum.splits)

lemma foldE_map: "foldE f (map g xs) s = foldE (\<lambda>x. f (g x)) xs s"
  by (induction xs arbitrary: s) (auto split: sum.splits)

lemma foldE_cong_set:
  "(\<And>x s. x \<in> set xs \<Longrightarrow> f x s = g x s) \<Longrightarrow> foldE f xs s = foldE g xs s"
  by (induction xs arbitrary: s) (auto split: sum.splits)

lemma topK_visit_all:
  assumes "topk_inv k es h" "0 < k"
  shows "\<exists>h'. foldE (\<lambda>e. topK_visit k (fst e) (snd e)) es2 h = Inr h' \<and> topk_inv k (es @ es2) h'"
  using assms(1)
proof (induction es2 arbitrary: es h)
  case Nil
  then show ?case by simp
next
  case (Cons e es2)
  from topK_visit_inv [OF Cons.prems assms(2), of "fst e" "snd e"] obtain h1 where
    a: "topK_visit k (fst e) (snd e) h = Inr h1" "topk_inv k (es @ [e]) h1" by auto
  from Cons.IH [OF a(2)] show ?case using a(1) by simp
qed

lemma topK_emit_all:
  assumes "is_heap h" "length h = m" "m \<le> K" "length res = K"
  shows "\<exists>res' ps. foldE (topK_emit K) [K - m..<K] (res, h) = Inr (res', []) \<and> length res' = K \<and>
            take m res' = rev (map snd ps) \<and> drop m res' = drop m res \<and>
            mset ps = mset h \<and> sorted (map fst ps)"
  using assms
proof (induction m arbitrary: h res)
  case 0
  then show ?case by (intro exI [of _ res] exI [of _ "[]"]) simp
next
  case (Suc m)
  then have ne: "h \<noteq> []" by auto
  let ?t = "h ! 0"
  let ?res1 = "res[m := snd ?t]"
  have upt: "[K - Suc m..<K] = (K - Suc m) # [K - m..<K]"
    using Suc.prems(3) by (simp add: upt_conv_Cons Suc_diff_Suc)
  have idx: "K - (K - Suc m) - 1 = m" using Suc.prems(3) by simp
  have step: "topK_emit K (K - Suc m) (res, h) = Inr (?res1, pq_pop h)"
    unfolding topK_emit_def idx pq_top_def using ne by simp
  from pq_pop_correct [OF Suc.prems(1) ne] have
    pp: "is_heap (pq_pop h)" "add_mset ?t (mset (pq_pop h)) = mset h" by simp_all
  have l1: "length (pq_pop h) = m" using pq_pop_length [OF Suc.prems(1) ne] Suc.prems(2) by simp
  have mK: "m \<le> K" "m < K" using Suc.prems(3) by simp_all
  from Suc.IH [OF pp(1) l1 mK(1), of ?res1] Suc.prems(4) obtain res' ps where
    ih: "foldE (topK_emit K) [K - m..<K] (?res1, pq_pop h) = Inr (res', [])" "length res' = K"
        "take m res' = rev (map snd ps)" "drop m res' = drop m ?res1"
        "mset ps = mset (pq_pop h)" "sorted (map fst ps)"
    by auto
  have nthm: "res' ! m = snd ?t"
  proof -
    have "res' ! m = drop m res' ! 0" using ih(2) mK by simp
    also have "\<dots> = ?res1 ! m" unfolding ih(4) using Suc.prems(4) mK by simp
    also have "\<dots> = snd ?t" using Suc.prems(4) mK by simp
    finally show ?thesis .
  qed
  have tk: "take (Suc m) res' = rev (map snd (?t # ps))"
    using ih(2,3) mK nthm by (simp add: take_Suc_conv_app_nth)
  have dr: "drop (Suc m) res' = drop (Suc m) res"
  proof -
    have "drop (Suc m) res' = drop 1 (drop m res')" by simp
    also have "\<dots> = drop 1 (drop m ?res1)" by (simp only: ih(4))
    also have "\<dots> = drop (Suc m) ?res1" by simp
    also have "\<dots> = drop (Suc m) res" by (simp add: drop_update_cancel)
    finally show ?thesis .
  qed
  have ms: "mset (?t # ps) = mset h" using ih(5) pp(2) by simp
  have tmin: "\<And>b. b \<in># mset h \<Longrightarrow> fst ?t \<le> fst b"
    using heap_top_least [OF Suc.prems(1)] by (metis in_set_conv_nth set_mset_mset)
  have "\<And>x. x \<in> set ps \<Longrightarrow> fst ?t \<le> fst x"
  proof -
    fix x assume "x \<in> set ps"
    then have "x \<in># mset (pq_pop h)" using ih(5) by (metis set_mset_mset)
    then have "x \<in># mset h" using pp(2) by (metis insert_iff set_mset_add_mset_insert)
    then show "fst ?t \<le> fst x" by (rule tmin)
  qed
  then have so: "sorted (map fst (?t # ps))" using ih(6) by auto
  have "foldE (topK_emit K) [K - Suc m..<K] (res, h) = Inr (res', [])"
    unfolding upt using step ih(1) by simp
  then show ?case using ih(2) tk dr ms so by blast
qed

lemma foldE_concat:
  "foldE f (concat (map r xs)) s = foldE (\<lambda>x. foldE f (r x)) xs s"
proof (induction xs arbitrary: s)
  case Nil
  then show ?case by simp
next
  case (Cons x xs)
  show ?case
    by (cases "foldE f (r x) s") (simp_all add: foldE_append Cons.IH)
qed

lemma map_add_upt_left: "map (\<lambda>j. c + j) [0..<m] = [c..<c + m]"
  by (induction m) simp_all

lemma concat_rows_upt:
  "concat (map (\<lambda>i. map (\<lambda>j. f (i * d + j)) [0..<d]) [0..<n]) = map f [0..<n * d]"
proof (induction n)
  case 0
  then show ?case by simp
next
  case (Suc n)
  have s: "Suc n * d = n * d + d" by simp
  have u: "[0..<n * d + d] = [0..<n * d] @ [n * d..<n * d + d]"
    by (rule upt_add_eq_append) simp
  have "map (\<lambda>j. f (n * d + j)) [0..<d] = map f (map (\<lambda>j. n * d + j) [0..<d])"
    by (simp add: o_def)
  also have "map (\<lambda>j. n * d + j) [0..<d] = [n * d..<n * d + d]"
    by (rule map_add_upt_left)
  finally have r: "map (\<lambda>j. f (n * d + j)) [0..<d] = map f [n * d..<n * d + d]" .
  have "concat (map (\<lambda>i. map (\<lambda>j. f (i * d + j)) [0..<d]) [0..<Suc n])
          = map f [0..<n * d] @ map (\<lambda>j. f (n * d + j)) [0..<d]"
    using Suc by simp
  also have "\<dots> = map f ([0..<n * d] @ [n * d..<n * d + d])" by (simp only: r map_append)
  finally show ?case by (simp only: s u)
qed

lemma distinct_if_mset_subset:
  assumes "distinct ys" "mset xs \<subseteq># mset ys"
  shows "distinct xs"
proof -
  have c1: "\<And>a. count (mset xs) a \<le> 1"
  proof -
    fix a
    have "count (mset xs) a \<le> count (mset ys) a" using assms(2) by (rule mset_subset_eq_count)
    also have "\<dots> \<le> 1" using assms(1) by (simp add: distinct_count_atmost_1)
    finally show "count (mset xs) a \<le> 1" .
  qed
  have "\<And>a. count (mset xs) a = (if a \<in> set xs then 1 else 0)"
  proof -
    fix a
    show "count (mset xs) a = (if a \<in> set xs then 1 else 0)"
    proof (cases "a \<in> set xs")
      case True
      then have "0 < count (mset xs) a" by simp
      then have "count (mset xs) a = 1" using c1 [of a] by linarith
      then show ?thesis using True by simp
    next
      case False
      then show ?thesis by (simp add: count_mset_0_iff)
    qed
  qed
  then show ?thesis by (simp only: distinct_count_atmost_1) simp
qed

lemma take_largest:
  fixes B :: "real list"
  assumes "sorted B" "mset vs = mset A + mset B" "\<forall>x\<in>set A. \<forall>y\<in>set B. x \<le> y"
  shows "take (length B) (rev (sort vs)) = rev B"
proof -
  let ?A = "sort A"
  have "sorted (?A @ B)" using assms(1,3) by (auto simp: sorted_append)
  moreover have "mset (?A @ B) = mset vs" using assms(2) by simp
  ultimately have "sort vs = ?A @ B" by (rule properties_for_sort [rotated])
  then show ?thesis by simp
qed

lemma entries_snd: "map snd (entries msg) = map int [0..<length msg * DEGREE]"
proof -
  have "map snd (entries msg)
          = concat (map (\<lambda>i. map (\<lambda>j. int (i * DEGREE + j)) [0..<DEGREE]) [0..<length msg])"
    by (simp add: entries_def map_concat o_def)
  then show ?thesis by (simp only: concat_rows_upt)
qed

lemma entries_fst:
  assumes "list_all (\<lambda>m. length m = DEGREE) msg"
  shows "map fst (entries msg) = concat msg"
proof -
  have row: "map (\<lambda>j. msg ! i ! j) [0..<DEGREE] = msg ! i" if "i < length msg" for i
  proof -
    have "length (msg ! i) = DEGREE" using assms that by (simp add: list_all_length)
    then show ?thesis using map_nth [of "msg ! i"] by simp
  qed
  have "map fst (entries msg)
          = concat (map (\<lambda>i. map (\<lambda>j. msg ! i ! j) [0..<DEGREE]) [0..<length msg])"
    by (simp add: entries_def map_concat o_def)
  also have "\<dots> = concat (map (\<lambda>i. msg ! i) [0..<length msg])"
    using row by (intro arg_cong [of _ _ concat] map_cong) simp_all
  also have "\<dots> = concat msg" by (simp add: map_nth)
  finally show ?thesis .
qed

lemma entries_score:
  assumes "e \<in> set (entries msg)"
  shows "score_at msg (snd e) = fst e \<and> 0 \<le> snd e \<and> snd e < int (length msg * DEGREE)"
proof -
  have D: "0 < DEGREE" by (simp add: DEGREE_def)
  from assms obtain i j where ij: "i < length msg" "j < DEGREE" "e = (msg ! i ! j, int (i * DEGREE + j))"
    by (auto simp: entries_def)
  have "(i * DEGREE + j) div DEGREE = i" "(i * DEGREE + j) mod DEGREE = j"
    using ij(2) D by simp_all
  moreover have "i * DEGREE + j < length msg * DEGREE"
  proof -
    have "i * DEGREE + j < i * DEGREE + DEGREE" using ij(2) by simp
    also have "\<dots> = Suc i * DEGREE" by simp
    also have "\<dots> \<le> length msg * DEGREE" using ij(1) by (intro mult_le_mono1) simp
    finally show ?thesis .
  qed
  ultimately have "msg ! (nat (int (i * DEGREE + j)) div DEGREE) ! (nat (int (i * DEGREE + j)) mod DEGREE)
                     = msg ! i ! j"
    and "int (i * DEGREE + j) < int (length msg * DEGREE)"
    by (simp_all only: nat_int of_nat_less_iff)
  then show ?thesis unfolding score_at_def ij(3) fst_conv snd_conv by simp
qed

lemma u64_to_int_small: "x < 2 ^ 31 \<Longrightarrow> u64_to_int x = int x"
  by (simp add: u64_to_int_def Let_def)

lemma flat_index:
  assumes "i < n" "j < DEGREE" "n * DEGREE \<le> 2 ^ 31"
  shows "u64_to_int (u64_add (u64_mul i DEGREE) j) = int (i * DEGREE + j)"
proof -
  have "i * DEGREE + j < i * DEGREE + DEGREE" using assms(2) by simp
  also have "\<dots> = Suc i * DEGREE" by simp
  also have "\<dots> \<le> n * DEGREE" using assms(1) by (intro mult_le_mono1) simp
  finally have lt: "i * DEGREE + j < 2 ^ 31" using assms(3) by simp
  then have a: "i * DEGREE < 2 ^ 64" "i * DEGREE + j < 2 ^ 64"
    by (simp_all add: order_less_trans [of _ "2 ^ 31" "2 ^ 64"])
  have "u64_mul i DEGREE = i * DEGREE" using a(1) by (simp add: u64_mul_def)
  moreover have "u64_add (i * DEGREE) j = i * DEGREE + j" using a(2) by (simp add: u64_add_def)
  ultimately show ?thesis using lt by (simp add: u64_to_int_small)
qed

lemma topK_scan_entries:
  assumes rows: "list_all (\<lambda>m. length m = DEGREE) msg" and fit: "length msg * DEGREE \<le> 2 ^ 31"
  shows "topK_scan k msg = foldE (\<lambda>e. topK_visit k (fst e) (snd e)) (entries msg) []"
proof -
  let ?V = "\<lambda>e. topK_visit k (fst e) (snd e)"
  let ?row = "\<lambda>i. map (\<lambda>j. (msg ! i ! j, int (i * DEGREE + j))) [0..<DEGREE]"
  let ?F = "\<lambda>i j min_heap.
              if j < length (msg ! i)
              then topK_visit k (msg ! i ! j) (u64_to_int (u64_add (u64_mul i DEGREE) j)) min_heap
              else Inl OutOfRange"
  have inner: "foldE (?F i) [0..<DEGREE] s = foldE ?V (?row i) s" if i: "i \<in> set [0..<length msg]" for i s
  proof -
    have il: "i < length msg" using i by simp
    have len: "length (msg ! i) = DEGREE" using rows il by (simp add: list_all_length)
    have "foldE ?V (?row i) s = foldE (\<lambda>j. ?V (msg ! i ! j, int (i * DEGREE + j))) [0..<DEGREE] s"
      by (rule foldE_map)
    also have "\<dots> = foldE (?F i) [0..<DEGREE] s"
    proof (rule foldE_cong_set)
      fix j t assume "j \<in> set [0..<DEGREE]"
      then have j: "j < DEGREE" by simp
      show "?V (msg ! i ! j, int (i * DEGREE + j)) t = ?F i j t"
        using j len flat_index [OF il j fit] by simp
    qed
    finally show ?thesis by simp
  qed
  have "topK_scan k msg = foldE (\<lambda>i. foldE (?F i) [0..<DEGREE]) [0..<length msg] []"
    by (simp add: topK_scan_def)
  also have "\<dots> = foldE (\<lambda>i. foldE ?V (?row i)) [0..<length msg] []"
    by (rule foldE_cong_set) (rule inner)
  also have "\<dots> = foldE ?V (concat (map ?row [0..<length msg])) []"
    by (rule foldE_concat [symmetric])
  finally show ?thesis by (simp only: entries_def)
qed

lemma foldE_unchanged:
  assumes "\<And>x. x \<in> set xs \<Longrightarrow> f x s = Inr s"
  shows "foldE f xs s = Inr s"
  using assms by (induction xs) simp_all

lemma topK_visit_keep:
  assumes "length h = k" "h \<noteq> []" "v \<le> fst (pq_top h)"
  shows "topK_visit k v idx h = Inr h"
  using assms by (simp add: topK_visit_def)

lemma upt_4096_split: "[0..<DEGREE] = [0, 1, 2] @ [3..<DEGREE]"
proof -
  have "[0..<3 + 4093] = [0..<3] @ [3..<3 + 4093]" by (rule upt_add_eq_append) simp
  moreover have "[0..<3] = [0, 1, 2]" by (simp add: upt_rec)
  ultimately show ?thesis by (simp add: DEGREE_def)
qed

lemma tie_scan: "topK_scan 2 [[1, 1, 5] @ replicate 4093 0] = Inr [(1, 1), (5, 2)]"
proof -
  let ?row = "[1, 1, 5] @ replicate 4093 (0::real)"
  let ?F = "\<lambda>j min_heap.
              if j < length ?row
              then topK_visit 2 (?row ! j) (u64_to_int (u64_add (u64_mul 0 DEGREE) j)) min_heap
              else Inl OutOfRange"
  have idx: "u64_to_int (u64_add (u64_mul 0 DEGREE) j) = int j" if "j < DEGREE" for j
    using flat_index [of 0 1 j] that by (simp add: DEGREE_def)
  have v0: "?F 0 [] = Inr [(1, 0)]"
    using idx [of 0]
    by (simp add: DEGREE_def topK_visit_def pq_push_def push_heap_def push_heap_impl.simps)
  have v1: "?F 1 [(1, 0)] = Inr [(1, 0), (1, 1)]"
    using idx [of 1]
    by (simp add: DEGREE_def topK_visit_def pq_push_def push_heap_def push_heap_impl.simps
        Compare_def)
  have pop: "pq_pop [(1 :: real, 0 :: int), (1, 1)] = [(1, 1)]"
    by (simp add: pq_pop_def pop_heap_def adjust_heap_def adjust_heap_down.simps
        push_heap_impl.simps Let_def)
  have v2: "?F 2 [(1, 0), (1, 1)] = Inr [(1, 1), (5, 2)]"
    using idx [of 2]
    by (simp add: DEGREE_def topK_visit_def pq_top_def pop pq_push_def push_heap_def
        push_heap_impl.simps Compare_def)
  have rest: "foldE ?F [3..<DEGREE] [(1, 1), (5, 2)] = Inr [(1, 1), (5, 2)]"
  proof (rule foldE_unchanged)
    fix j assume "j \<in> set [3..<DEGREE]"
    then have "3 \<le> j \<and> j < DEGREE" by (simp only: set_upt atLeastLessThan_iff)
    then have j: "3 \<le> j" "j < 4096" by (simp_all add: DEGREE_def)
    then have "?row ! j = 0" by (simp add: nth_append)
    moreover have "j < length ?row" using j by simp
    ultimately show "?F j [(1, 1), (5, 2)] = Inr [(1, 1), (5, 2)]"
      by (simp add: topK_visit_keep pq_top_def)
  qed
  have main: "foldE ?F [0..<DEGREE] [] = Inr [(1, 1), (5, 2)]"
    unfolding upt_4096_split foldE_append using v0 v1 v2 rest by simp
  have one: "[0..<length [?row]] = [0]" by simp
  have r0: "[?row] ! 0 = ?row" by simp
  show ?thesis
    unfolding topK_scan_def one foldE.simps r0 using main by (simp only: sum.case foldE.simps)
qed

text \<open>
  Claim C6 says that \<open>topKScore\<close> returns the flat indices of the \<open>k\<close> largest values in
  descending order of value, ties between equal values going to the lower flat index first.
  The comparison of the heap looks at the score only. For \<open>k = 2\<close> and one message that
  starts with the scores \<open>1, 1, 5\<close> and holds zeros elsewhere, the two largest values with
  ties going to the lower index are at the flat indices 2 and 0; the code returns 2 and 1:
  of the two entries of score 1, the one at index 0 is at the top of the heap and is the one
  dropped when the score 5 arrives.
\<close>

theorem topKScore_tie_counterexample:
  "topKScore [0, 0] [[1, 1, 5] @ replicate 4093 0] = Inr [2, 1]"
proof -
  have pop1: "pq_pop [(1 :: real, 1 :: int), (5, 2)] = [(5, 2)]"
    by (simp add: pq_pop_def pop_heap_def adjust_heap_def adjust_heap_down.simps
        push_heap_impl.simps Let_def)
  have pop2: "pq_pop [(5 :: real, 2 :: int)] = []"
    by (simp add: pq_pop_def pop_heap_def)
  have upt2: "[0..<2] = [0, 1]" by (simp add: upt_rec)
  have "foldE (topK_emit 2) [0..<2] ([0, 0], [(1, 1), (5, 2)]) = Inr ([2, 1], [])"
    unfolding upt2 by (simp add: topK_emit_def pq_top_def pop1 pop2)
  moreover have "length [0 :: int, 0] = 2" by simp
  ultimately show ?thesis unfolding topKScore_def Let_def using tie_scan by (simp only: sum.case prod.case)
qed

text \<open>
  Claim C6, amended. For a non-empty list of messages of \<open>DEGREE\<close> scores each, with at most
  \<open>2 ^ 31\<close> entries in all, and \<open>1 \<le> k \<le>\<close> the number of entries, \<open>topKScore\<close> returns
  \<open>k\<close> distinct flat indices \<open>i * DEGREE + j\<close> of entries, and the scores \<open>msg[i][j]\<close> at
  the returned indices, in the order returned, are the \<open>k\<close> largest scores in descending
  order. Which of several entries of equal score is returned, and in which order, is not
  stated.
\<close>

theorem topKScore_selects_largest:
  assumes ne: "msg \<noteq> []"
    and rows: "list_all (\<lambda>m. length m = DEGREE) msg"
    and fit: "length msg * DEGREE \<le> 2 ^ 31"
    and k: "0 < length res" "length res \<le> length msg * DEGREE"
  shows "\<exists>out. topKScore res msg = Inr out \<and> length out = length res \<and> distinct out \<and>
               list_all (\<lambda>x. 0 \<le> x \<and> x < int (length msg * DEGREE)) out \<and>
               map (score_at msg) out = take (length res) (rev (sort (concat msg)))"
proof -
  define kk where "kk = length res"
  define es where "es = entries msg"
  have les: "length es = length msg * DEGREE"
    using entries_snd [of msg] unfolding es_def by (metis length_map length_upt diff_zero)
  have inv0: "topk_inv kk [] []"
    by (simp add: topk_inv_def is_heap_def heap_upto_def)
  have kpos: "0 < kk" using k(1) by (simp add: kk_def)
  from topK_visit_all [OF inv0 kpos, of es] obtain h where
    h: "foldE (\<lambda>e. topK_visit kk (fst e) (snd e)) es [] = Inr h" "topk_inv kk es h"
    by auto
  have scan: "topK_scan kk msg = Inr h"
    using topK_scan_entries [OF rows fit, of kk] h(1) by (simp add: es_def)
  from h(2) obtain R where
    hp: "is_heap h" and lh: "length h = min kk (length es)"
    and R: "mset es = mset h + R" "\<forall>a\<in>#R. \<forall>b\<in>#mset h. fst a \<le> fst b"
    by (auto simp: topk_inv_def)
  have lhk: "length h = kk" using lh les k(2) by (simp add: kk_def)
  from topK_emit_all [OF hp lhk order_refl, of res] obtain out ps where
    e: "foldE (topK_emit kk) [kk - kk..<kk] (res, h) = Inr (out, [])" "length out = kk"
       "take kk out = rev (map snd ps)" "mset ps = mset h" "sorted (map fst ps)"
    by (auto simp: kk_def)
  have out: "out = rev (map snd ps)" using e(2,3) by simp
  have res: "topKScore res msg = Inr out"
    using scan e(1) by (simp add: topKScore_def kk_def [symmetric])
  have sub: "mset ps \<subseteq># mset es" using e(4) R(1) by simp
  have pse: "\<And>x. x \<in> set ps \<Longrightarrow> x \<in> set es"
    using sub by (metis mset_subset_eqD set_mset_mset)
  have dist: "distinct out"
  proof -
    have "mset (map snd ps) \<subseteq># mset (map snd es)"
      using sub by (simp add: image_mset_subseteq_mono)
    moreover have "distinct (map snd es)"
      unfolding es_def entries_snd by (simp add: distinct_map inj_on_def)
    ultimately have "distinct (map snd ps)" by (rule distinct_if_mset_subset [rotated])
    then show ?thesis by (simp add: out)
  qed
  have rng: "list_all (\<lambda>x. 0 \<le> x \<and> x < int (length msg * DEGREE)) out"
    unfolding out list_all_iff using pse entries_score [of _ msg] by (auto simp: es_def)
  have vals: "map (score_at msg) out = rev (map fst ps)"
  proof -
    have "map (score_at msg) (map snd ps) = map fst ps"
      using pse entries_score [of _ msg] by (auto simp: es_def)
    then show ?thesis by (simp add: out rev_map)
  qed
  obtain Rl where Rl: "mset Rl = R" using ex_mset by blast
  have m: "mset (concat msg) = mset (map fst Rl) + mset (map fst ps)"
  proof -
    have "mset (concat msg) = mset (map fst es)" using entries_fst [OF rows] by (simp add: es_def)
    also have "\<dots> = image_mset fst (mset h + R)" using R(1) by simp
    also have "\<dots> = mset (map fst Rl) + mset (map fst ps)" using Rl e(4) by simp
    finally show ?thesis .
  qed
  have ord: "\<forall>x\<in>set (map fst Rl). \<forall>y\<in>set (map fst ps). x \<le> y"
  proof (intro ballI)
    fix x y assume "x \<in> set (map fst Rl)" "y \<in> set (map fst ps)"
    then obtain a b where ab: "a \<in> set Rl" "x = fst a" "b \<in> set ps" "y = fst b" by auto
    have "a \<in># R" using ab(1) Rl by (metis set_mset_mset)
    moreover have "b \<in># mset h" using ab(3) e(4) by (metis set_mset_mset)
    ultimately show "x \<le> y" using R(2) ab by blast
  qed
  have "take (length (map fst ps)) (rev (sort (concat msg))) = rev (map fst ps)"
    by (rule take_largest [OF e(5) m ord])
  moreover have "length (map fst ps) = kk"
    using e(4) lhk by (metis length_map size_mset)
  ultimately have "map (score_at msg) out = take kk (rev (sort (concat msg)))"
    using vals by simp
  then show ?thesis using res e(2) dist rng by (auto simp: kk_def)
qed

theorem topKScore_selects_largest_witness:
  "[[1, 1, 5] @ replicate 4093 (0 :: real)] \<noteq> [] \<and>
   list_all (\<lambda>m. length m = DEGREE) [[1, 1, 5] @ replicate 4093 (0 :: real)] \<and>
   length [[1, 1, 5] @ replicate 4093 (0 :: real)] * DEGREE \<le> 2 ^ 31 \<and>
   0 < length [0 :: int, 0] \<and>
   length [0 :: int, 0] \<le> length [[1, 1, 5] @ replicate 4093 (0 :: real)] * DEGREE \<and>
   (\<exists>out. topKScore [0, 0] [[1, 1, 5] @ replicate 4093 0] = Inr out \<and> length out = length [0 :: int, 0] \<and>
      distinct out \<and>
      list_all (\<lambda>x. 0 \<le> x \<and> x < int (length [[1, 1, 5] @ replicate 4093 (0 :: real)] * DEGREE)) out \<and>
      map (score_at [[1, 1, 5] @ replicate 4093 0]) out
        = take (length [0 :: int, 0]) (rev (sort (concat [[1, 1, 5] @ replicate 4093 0]))))"
proof -
  let ?msg = "[[1, 1, 5] @ replicate 4093 (0 :: real)]"
  have a: "?msg \<noteq> []" by simp
  have b: "list_all (\<lambda>m. length m = DEGREE) ?msg" by (simp add: DEGREE_def)
  have c: "length ?msg * DEGREE \<le> 2 ^ 31" by (simp add: DEGREE_def)
  have d: "0 < length [0 :: int, 0]" by simp
  have e: "length [0 :: int, 0] \<le> length ?msg * DEGREE" by (simp add: DEGREE_def)
  from topKScore_selects_largest [OF a b c d e] a b c d e show ?thesis by blast
qed

end
